theory Spec2Isabelle
  imports Complex_Main "HOL-Library.Word" "HOL-Library.Product_Lexorder"
begin

section \<open>The persisted data model (supabase/schema.sql)\<close>

text \<open>
  The tables \<open>kg_nodes\<close>, \<open>kg_edges\<close> and \<open>document_chunks\<close> are lists of rows in
  insertion order. A UUID is a 128-bit word; PostgreSQL compares UUIDs bytewise, which is
  the unsigned order of the word. The components of a \<open>vector\<close> and the weights of
  edges are read as real numbers; the sums of \<open>find_shortest_path\<close> are sums of reals,
  which is what float8 computes on the weights of the scenarios (1, 1 and 5) and on the
  default weight. The \<open>weight\<close> column is nullable in the schema, but every insert of the
  repository leaves it at its default \<open>1.0\<close>, so a weight is a number here. The
  timestamp columns play no part in any function below and are left out. Console output
  of the server is not part of any value handed back to a caller and is left out too.
\<close>

type_synonym uuid = "128 word"

type_synonym vector = "real list"

datatype json = JNull | JBool bool | JNum real | JStr string | JArr "json list"
  | JObj "(string \<times> json) list"

record kg_node =
  n_id :: uuid
  n_label :: string
  n_type :: "string option"
  n_properties :: json
  n_embedding :: "vector option"

record kg_edge =
  e_id :: uuid
  source_id :: uuid
  target_id :: uuid
  relationship :: string
  e_properties :: json
  weight :: real

record document_chunk =
  c_id :: uuid
  c_document_id :: "uuid option"
  chunk_index :: int
  c_content :: string
  c_embedding :: "vector option"
  c_metadata :: json

record db =
  kg_nodes :: "kg_node list"
  kg_edges :: "kg_edge list"
  document_chunks :: "document_chunk list"

datatype pg_error = UniqueViolation | ForeignKeyViolation | StringDataRightTruncation
  | InvalidRowCountInLimit | UndefinedFunction | DataException

section \<open>\<open>get_connected_nodes\<close>\<close>

text \<open>
  The recursive common table expression \<open>node_graph\<close>. PostgreSQL evaluates it by
  iteration: the base term fills the working table; the recursive term is evaluated on
  the working table alone, its rows (here after \<open>SELECT DISTINCT\<close>) are added to the
  result and become the next working table; the iteration stops at an empty working
  table.
\<close>

record ng_row =
  node_id :: uuid
  label :: string
  rtype :: "string option"
  properties :: json
  depth :: int
  path :: "uuid list"

definition ng_of :: "kg_node \<Rightarrow> int \<Rightarrow> uuid list \<Rightarrow> ng_row" where
  "ng_of n d p = \<lparr>node_id = n_id n, label = n_label n, rtype = n_type n,
     properties = n_properties n, depth = d, path = p\<rparr>"

definition node_graph_base :: "db \<Rightarrow> uuid \<Rightarrow> ng_row list" where
  "node_graph_base s start = [ng_of n 0 [n_id n]. n \<leftarrow> kg_nodes s, n_id n = start]"

definition node_graph_step :: "db \<Rightarrow> int \<Rightarrow> ng_row list \<Rightarrow> ng_row list" where
  "node_graph_step s max_depth work = remdups
     [ng_of n (depth ng + 1) (path ng @ [n_id n]).
        ng \<leftarrow> work,
        e \<leftarrow> kg_edges s, node_id ng = source_id e \<or> node_id ng = target_id e,
        n \<leftarrow> kg_nodes s,
        (source_id e = node_id ng \<and> target_id e = n_id n) \<or>
        (target_id e = node_id ng \<and> source_id e = n_id n),
        depth ng < max_depth, n_id n \<notin> set (path ng)]"

definition ng_measure :: "int \<Rightarrow> ng_row list \<Rightarrow> nat" where
  "ng_measure max_depth work =
     Max (insert 0 ((\<lambda>r. nat (max_depth - depth r) + 1) ` set work))"

function node_graph_loop :: "db \<Rightarrow> int \<Rightarrow> ng_row list \<Rightarrow> ng_row list" where
  "node_graph_loop s max_depth work =
     (if work = [] then []
      else work @ node_graph_loop s max_depth (node_graph_step s max_depth work))"
  by pat_completeness auto
termination
proof (relation "measure (\<lambda>(s, max_depth, work). ng_measure max_depth work)", simp, clarsimp)
  fix s :: db and max_depth :: int and work :: "ng_row list"
  assume ne: "work \<noteq> []"
  let ?m = "\<lambda>r. nat (max_depth - depth r) + 1"
  let ?new = "node_graph_step s max_depth work"
  obtain r0 where r0: "r0 \<in> set work" using ne by (cases work) auto
  have pos: "0 < ng_measure max_depth work"
  proof -
    have "?m r0 \<le> ng_measure max_depth work"
      unfolding ng_measure_def using r0 by (intro Max_ge) auto
    then show ?thesis by simp
  qed
  have step: "\<exists>r \<in> set work. ?m r' < ?m r" if rin: "r' \<in> set ?new" for r'
  proof -
    from rin obtain ng where "ng \<in> set work" "depth ng < max_depth" "depth r' = depth ng + 1"
      unfolding node_graph_step_def ng_of_def by (auto split: if_splits)
    then show ?thesis by (intro bexI[of _ ng]) auto
  qed
  have "x < ng_measure max_depth work" if xin: "x \<in> insert 0 (?m ` set ?new)" for x
  proof (cases "x = 0")
    case True then show ?thesis using pos by simp
  next
    case False
    then obtain r' where r': "r' \<in> set ?new" "x = ?m r'" using xin by auto
    then obtain r where r: "r \<in> set work" "?m r' < ?m r" using step by blast
    have "?m r \<le> ng_measure max_depth work"
      unfolding ng_measure_def using r(1) by (intro Max_ge) auto
    then show ?thesis using r r' by linarith
  qed
  then show "ng_measure max_depth ?new < ng_measure max_depth work"
    unfolding ng_measure_def[of max_depth ?new] by (subst Max_less_iff) auto
qed

text \<open>
  \<open>SELECT DISTINCT ON (node_id) * ... ORDER BY node_id, depth\<close>: the rows are sorted by
  \<open>(node_id, depth)\<close> and the first row of every run of equal \<open>node_id\<close> is kept. Which
  of several rows of equal \<open>node_id\<close> and \<open>depth\<close> comes first is left open by SQL; the
  stable sort fixes one choice, and no statement below depends on it.
\<close>

fun distinct_on_node_id :: "ng_row list \<Rightarrow> ng_row list" where
  "distinct_on_node_id [] = []"
| "distinct_on_node_id [r] = [r]"
| "distinct_on_node_id (r # r' # rs) =
     (if node_id r = node_id r' then distinct_on_node_id (r # rs)
      else r # distinct_on_node_id (r' # rs))"

definition node_graph :: "db \<Rightarrow> uuid \<Rightarrow> int \<Rightarrow> ng_row list" where
  "node_graph s nid max_depth = node_graph_loop s max_depth (node_graph_base s nid)"

definition get_connected_nodes :: "db \<Rightarrow> uuid \<Rightarrow> int \<Rightarrow> ng_row list" where
  "get_connected_nodes s nid max_depth =
     distinct_on_node_id (sort_key (\<lambda>r. (node_id r, depth r)) (node_graph s nid max_depth))"

section \<open>\<open>find_shortest_path\<close>\<close>

record path_row =
  p_path :: "uuid list"
  total_weight :: real
  current_node :: uuid

definition paths_base :: "db \<Rightarrow> uuid \<Rightarrow> path_row list" where
  "paths_base s start_id =
     (if \<exists>n \<in> set (kg_nodes s). n_id n = start_id
      then [\<lparr>p_path = [start_id], total_weight = 0, current_node = start_id\<rparr>] else [])"

definition paths_step :: "db \<Rightarrow> int \<Rightarrow> path_row list \<Rightarrow> path_row list" where
  "paths_step s max_depth work =
     [\<lparr>p_path = p_path p @ [target_id e], total_weight = total_weight p + weight e,
        current_node = target_id e\<rparr>.
        p \<leftarrow> work,
        e \<leftarrow> kg_edges s, source_id e = current_node p,
        target_id e \<notin> set (p_path p), int (length (p_path p)) < max_depth]"

definition paths_measure :: "int \<Rightarrow> path_row list \<Rightarrow> nat" where
  "paths_measure max_depth work =
     Max (insert 0 ((\<lambda>r. nat (max_depth - int (length (p_path r))) + 1) ` set work))"

function paths_loop :: "db \<Rightarrow> int \<Rightarrow> path_row list \<Rightarrow> path_row list" where
  "paths_loop s max_depth work =
     (if work = [] then []
      else work @ paths_loop s max_depth (paths_step s max_depth work))"
  by pat_completeness auto
termination
proof (relation "measure (\<lambda>(s, max_depth, work). paths_measure max_depth work)", simp, clarsimp)
  fix s :: db and max_depth :: int and work :: "path_row list"
  assume ne: "work \<noteq> []"
  let ?m = "\<lambda>r. nat (max_depth - int (length (p_path r))) + 1"
  let ?new = "paths_step s max_depth work"
  obtain r0 where r0: "r0 \<in> set work" using ne by (cases work) auto
  have pos: "0 < paths_measure max_depth work"
  proof -
    have "?m r0 \<le> paths_measure max_depth work"
      unfolding paths_measure_def using r0 by (intro Max_ge) auto
    then show ?thesis by simp
  qed
  have step: "\<exists>r \<in> set work. ?m r' < ?m r" if rin: "r' \<in> set ?new" for r'
  proof -
    from rin obtain p where "p \<in> set work" "int (length (p_path p)) < max_depth"
        "length (p_path r') = length (p_path p) + 1"
      unfolding paths_step_def by (auto split: if_splits)
    then show ?thesis by (intro bexI[of _ p]) auto
  qed
  have "x < paths_measure max_depth work" if xin: "x \<in> insert 0 (?m ` set ?new)" for x
  proof (cases "x = 0")
    case True then show ?thesis using pos by simp
  next
    case False
    then obtain r' where r': "r' \<in> set ?new" "x = ?m r'" using xin by auto
    then obtain r where r: "r \<in> set work" "?m r' < ?m r" using step by blast
    have "?m r \<le> paths_measure max_depth work"
      unfolding paths_measure_def using r(1) by (intro Max_ge) auto
    then show ?thesis using r r' by linarith
  qed
  then show "paths_measure max_depth ?new < paths_measure max_depth work"
    unfolding paths_measure_def[of max_depth ?new] by (subst Max_less_iff) auto
qed

definition paths :: "db \<Rightarrow> uuid \<Rightarrow> int \<Rightarrow> path_row list" where
  "paths s start_id max_depth = paths_loop s max_depth (paths_base s start_id)"

text \<open>
  \<open>WHERE current_node = end_id ORDER BY total_weight ASC LIMIT 1\<close>: at most one row comes
  back, so the result is an option; \<open>None\<close> is the empty table.
\<close>

definition find_shortest_path :: "db \<Rightarrow> uuid \<Rightarrow> uuid \<Rightarrow> int \<Rightarrow> (uuid list \<times> real) option" where
  "find_shortest_path s start_id end_id max_depth =
     (case sort_key total_weight [p \<leftarrow> paths s start_id max_depth. current_node p = end_id] of
        [] \<Rightarrow> None
      | r # _ \<Rightarrow> Some (p_path r, total_weight r))"

section \<open>\<open>search_nodes_semantic\<close> and \<open>search_chunks_semantic\<close>\<close>

text \<open>
  A float8 is a number or NaN. PostgreSQL orders NaN above every number, in comparisons
  and in \<open>ORDER BY\<close>. The operator \<open><=>\<close> (cosine distance) belongs to the pgvector
  extension, not to the repository: it is a parameter, and so are the two other things
  the queries leave to the database. The record \<open>pg_ops\<close> holds
  \<^item> \<open>cosine_op\<close>, the operator: a float8, NaN for a vector without direction, or the
    error of two vectors of different dimensions;
  \<^item> \<open>float8mi\<close>, the subtraction of float8 on numbers, with its rounding;
  \<^item> \<open>scanned\<close>, the rows that the access path of the query visits: every row for a
    sequential scan, the rows of the probed lists for a scan of the ivfflat index that
    the schema creates on the embedding column (an approximate search). The rows visited
    are delivered in the order of the operator.
  \<open>LIMIT\<close> with a negative count is an error raised before any row is read, and
  \<open>LIMIT 0\<close> reads no row.
\<close>

datatype float8 = Finite real | NaN

record pg_ops =
  cosine_op :: "vector \<Rightarrow> vector \<Rightarrow> pg_error + float8"
  float8mi :: "real \<Rightarrow> real \<Rightarrow> real"
  scanned :: "vector \<Rightarrow> uuid \<Rightarrow> bool"

fun float8_gt :: "float8 \<Rightarrow> real \<Rightarrow> bool" where
  "float8_gt NaN t = True"
| "float8_gt (Finite x) t = (x > t)"

fun float8_key :: "float8 \<Rightarrow> bool \<times> real" where
  "float8_key (Finite x) = (False, x)"
| "float8_key NaN = (True, 0)"

fun similarity :: "pg_ops \<Rightarrow> float8 \<Rightarrow> float8" where
  "similarity ops NaN = NaN"
| "similarity ops (Finite d) = Finite (float8mi ops 1 d)"

record node_match =
  m_id :: uuid
  m_label :: string
  m_type :: "string option"
  m_properties :: json
  m_similarity :: float8

record chunk_match =
  cm_id :: uuid
  cm_document_id :: "uuid option"
  cm_content :: string
  cm_metadata :: json
  cm_similarity :: float8

fun not_null :: "'a option \<Rightarrow> 'a list" where
  "not_null None = []"
| "not_null (Some v) = [v]"

text \<open>
  The body the two functions share, over the table \<open>rows\<close> with key \<open>rid\<close> and
  embedding column \<open>emb\<close>: \<open>WHERE embedding IS NOT NULL AND 1 - (embedding <=>
  query_embedding) > match_threshold ORDER BY embedding <=> query_embedding LIMIT
  match_count\<close>. The result pairs a row with its distance.
\<close>

definition semantic_scan ::
  "pg_ops \<Rightarrow> ('r \<Rightarrow> uuid) \<Rightarrow> ('r \<Rightarrow> vector option) \<Rightarrow> 'r list \<Rightarrow> vector \<Rightarrow> real \<Rightarrow> int
     \<Rightarrow> pg_error + ('r \<times> float8) list" where
  "semantic_scan ops rid emb rows query_embedding match_threshold match_count =
     (if match_count < 0 then Inl InvalidRowCountInLimit
      else if match_count = 0 then Inr []
      else
        let cands = [(r, cosine_op ops e query_embedding).
                       r \<leftarrow> rows, scanned ops query_embedding (rid r), e \<leftarrow> not_null (emb r)] in
        case [err. (r, Inl err) \<leftarrow> cands] of
          err # _ \<Rightarrow> Inl err
        | [] \<Rightarrow>
            Inr (take (nat match_count)
              (sort_key (\<lambda>(r, d). float8_key d)
                 [(r, d). (r, Inr d) \<leftarrow> cands, float8_gt (similarity ops d) match_threshold])))"

definition search_nodes_semantic ::
  "pg_ops \<Rightarrow> db \<Rightarrow> vector \<Rightarrow> real \<Rightarrow> int \<Rightarrow> pg_error + node_match list" where
  "search_nodes_semantic ops s query_embedding match_threshold match_count =
     map_sum id
       (map (\<lambda>(n, d). \<lparr>m_id = n_id n, m_label = n_label n, m_type = n_type n,
               m_properties = n_properties n, m_similarity = similarity ops d\<rparr>))
       (semantic_scan ops n_id n_embedding (kg_nodes s) query_embedding match_threshold
          match_count)"

definition search_chunks_semantic ::
  "pg_ops \<Rightarrow> db \<Rightarrow> vector \<Rightarrow> real \<Rightarrow> int \<Rightarrow> pg_error + chunk_match list" where
  "search_chunks_semantic ops s query_embedding match_threshold match_count =
     map_sum id
       (map (\<lambda>(c, d). \<lparr>cm_id = c_id c, cm_document_id = c_document_id c,
               cm_content = c_content c, cm_metadata = c_metadata c,
               cm_similarity = similarity ops d\<rparr>))
       (semantic_scan ops c_id c_embedding (document_chunks s) query_embedding match_threshold
          match_count)"

section \<open>Constraints of \<open>kg_nodes\<close> and \<open>kg_edges\<close>\<close>

text \<open>
  An \<open>INSERT\<close> checks the column types first (\<open>VARCHAR(n)\<close>: a longer value is an error
  unless the excess is spaces, which are cut), then the primary key and the
  \<open>UNIQUE(source_id, target_id, relationship)\<close> index, then the foreign keys. Deleting a
  node deletes its incident edges (\<open>ON DELETE CASCADE\<close>).
\<close>

definition varchar :: "nat \<Rightarrow> string \<Rightarrow> pg_error + string" where
  "varchar n v =
     (if length v \<le> n then Inr v
      else if \<forall>c \<in> set (drop n v). c = CHR '' '' then Inr (take n v)
      else Inl StringDataRightTruncation)"

definition node_exists :: "db \<Rightarrow> uuid \<Rightarrow> bool" where
  "node_exists s v = (\<exists>n \<in> set (kg_nodes s). n_id n = v)"

definition edge_triple :: "kg_edge \<Rightarrow> uuid \<times> uuid \<times> string" where
  "edge_triple e = (source_id e, target_id e, relationship e)"

definition insert_kg_nodes :: "db \<Rightarrow> kg_node \<Rightarrow> pg_error + kg_node \<times> db" where
  "insert_kg_nodes s n =
     (case varchar 255 (n_label n) of Inl err \<Rightarrow> Inl err | Inr l \<Rightarrow>
      case (case n_type n of None \<Rightarrow> Inr None | Some t \<Rightarrow> map_sum id Some (varchar 100 t)) of
        Inl err \<Rightarrow> Inl err
      | Inr t \<Rightarrow>
          let row = n\<lparr>n_label := l, n_type := t\<rparr> in
          if node_exists s (n_id row) then Inl UniqueViolation
          else Inr (row, s\<lparr>kg_nodes := kg_nodes s @ [row]\<rparr>))"

definition insert_kg_edges :: "db \<Rightarrow> kg_edge \<Rightarrow> pg_error + kg_edge \<times> db" where
  "insert_kg_edges s e =
     (case varchar 255 (relationship e) of Inl err \<Rightarrow> Inl err | Inr r \<Rightarrow>
        let row = e\<lparr>relationship := r\<rparr> in
        if \<exists>x \<in> set (kg_edges s). e_id x = e_id row then Inl UniqueViolation
        else if \<exists>x \<in> set (kg_edges s). edge_triple x = edge_triple row then Inl UniqueViolation
        else if \<not> node_exists s (source_id row) \<or> \<not> node_exists s (target_id row)
          then Inl ForeignKeyViolation
        else Inr (row, s\<lparr>kg_edges := kg_edges s @ [row]\<rparr>))"

definition delete_kg_nodes :: "db \<Rightarrow> uuid \<Rightarrow> db" where
  "delete_kg_nodes s i =
     s\<lparr>kg_nodes := [n \<leftarrow> kg_nodes s. n_id n \<noteq> i],
       kg_edges := [e \<leftarrow> kg_edges s. source_id e \<noteq> i \<and> target_id e \<noteq> i]\<rparr>"

section \<open>The chat route (src/app/api/chat/route.ts)\<close>

text \<open>
  The collaborators of the route are parameters: the embeddings endpoint of OpenAI
  (\<open>None\<close>: the call throws), the values \<open>Math.random()\<close> yields, the operations of
  the database behind the similarity searches and the values \<open>uuid_generate_v4()\<close>
  yields. The state threaded through a request is the store, how many values of the two
  generators have been used, and \<open>process.env.NODE_ENV\<close> of the server process.
\<close>

record env =
  embeddings_create :: "string \<Rightarrow> vector option"
  math_random :: "nat \<Rightarrow> real"
  vector_cosine_ops :: pg_ops
  uuid_generate_v4 :: "nat \<Rightarrow> uuid"

record world =
  store :: db
  random_calls :: nat
  uuid_calls :: nat
  NODE_ENV :: string

datatype mode = Vector | Graph | Hybrid

datatype update_op = Add | Refresh

text \<open>
  The arguments of a tool call after its zod schema has filled in nothing yet: an absent
  optional field is \<open>None\<close>. The numbers of \<open>limit\<close> and \<open>maxDepth\<close> are integral.
\<close>

datatype tool_args =
    SearchVectorArgs string "real option" "int option"
  | SearchGraphArgs string "int option"
  | CreateNodeArgs string "string option" "json option"
  | CreateEdgeArgs string string string
  | UpdateGraphArgs update_op "string option"

text \<open>
  What a tool can throw: the error object of the store client, which is a plain object
  and no instance of \<open>Error\<close>, or an instance of \<open>Error\<close> with its message.
\<close>

datatype js_exn = StoreError pg_error | JsError string

record chunk_result =
  chunk :: chunk_match
  document_title :: string
  excerpt :: string

record node_view =
  v_id :: uuid
  v_label :: string
  v_type :: string
  v_description :: "json option"

record edge_view =
  ev_id :: uuid
  ev_source :: uuid
  ev_target :: uuid
  ev_label :: string

datatype tool_value =
    ChunkResults "chunk_result list"
  | SafeExecuteError string "js_exn option"
  | ErrorMessage string
  | Traversal kg_node "ng_row list"
  | NodeRow kg_node
  | EdgeRow kg_edge
  | GraphRefresh "node_view list" "edge_view list"
  | GraphAdd
  | NodeMatches "node_match list"

type_synonym 'a execute = "'a \<Rightarrow> world \<Rightarrow> (js_exn + tool_value) \<times> world"

definition generateEmbedding :: "env \<Rightarrow> string \<Rightarrow> world \<Rightarrow> vector \<times> world" where
  "generateEmbedding ev text w =
     (case embeddings_create ev (take 8000 text) of
        Some embedding \<Rightarrow> (embedding, w)
      | None \<Rightarrow> (map (\<lambda>i. math_random ev (random_calls w + i)) [0..<1536],
                 w\<lparr>random_calls := random_calls w + 1536\<rparr>))"

text \<open>
  \<open>createSafeExecute\<close> returns \<open>{ error: true, message, details }\<close>: the message names
  the tool and ends in \<open>error.message\<close> for an instance of \<open>Error\<close> and in
  \<open>Unknown error\<close> otherwise; \<open>details\<close> is the error in development and absent
  elsewhere.
\<close>

definition createSafeExecute :: "'a execute \<Rightarrow> string \<Rightarrow> 'a execute" where
  "createSafeExecute fn toolName = (\<lambda>args w.
     case fn args w of
       (Inl error, w') \<Rightarrow>
         (Inr (SafeExecuteError
            (''Failed to execute '' @ toolName @ '': '' @
               (case error of JsError message \<Rightarrow> message | StoreError _ \<Rightarrow> ''Unknown error''))
            (if NODE_ENV w' = ''development'' then Some error else None)), w')
     | (Inr v, w') \<Rightarrow> (Inr v, w'))"

definition js_or :: "'a::zero \<Rightarrow> 'a \<Rightarrow> 'a" where
  "js_or v d = (if v = 0 then d else v)"

definition searchDocuments :: "env \<Rightarrow> (string \<times> real \<times> int) execute" where
  "searchDocuments ev = (\<lambda>(query, threshold, limit) w.
     let (embedding, w1) = generateEmbedding ev query w in
     case search_chunks_semantic (vector_cosine_ops ev) (store w1) embedding
            (js_or threshold 0.5) (js_or limit 10) of
       Inl error \<Rightarrow> (Inl (StoreError error), w1)
     | Inr data \<Rightarrow>
         (Inr (ChunkResults (map (\<lambda>c. \<lparr>chunk = c, document_title = ''Unknown Document'',
                 excerpt = take 200 (cm_content c) @ ''...''\<rparr>) data)), w1))"

definition traverseGraph :: "(string \<times> int) execute" where
  "traverseGraph = (\<lambda>(nodeLabel, maxDepth) w.
     case [n \<leftarrow> kg_nodes (store w). n_label n = nodeLabel] of
       [] \<Rightarrow> (Inr (ErrorMessage ''Node not found''), w)
     | n # _ \<Rightarrow> (Inr (Traversal n (get_connected_nodes (store w) (n_id n) maxDepth)), w))"

definition createNode :: "env \<Rightarrow> (string \<times> string option \<times> json) execute" where
  "createNode ev = (\<lambda>(label, type, properties) w.
     let w1 = w\<lparr>uuid_calls := uuid_calls w + 1\<rparr> in
     case insert_kg_nodes (store w)
            \<lparr>n_id = uuid_generate_v4 ev (uuid_calls w), n_label = label, n_type = type,
             n_properties = properties, n_embedding = None\<rparr> of
       Inl error \<Rightarrow> (Inl (StoreError error), w1)
     | Inr (data, s') \<Rightarrow> (Inr (NodeRow data), w1\<lparr>store := s'\<rparr>))"

definition createEdge :: "env \<Rightarrow> (string \<times> string \<times> string) execute" where
  "createEdge ev = (\<lambda>(sourceLabel, targetLabel, rel) w.
     case ([n \<leftarrow> kg_nodes (store w). n_label n = sourceLabel],
           [n \<leftarrow> kg_nodes (store w). n_label n = targetLabel]) of
       (src # _, tgt # _) \<Rightarrow>
         (let w1 = w\<lparr>uuid_calls := uuid_calls w + 1\<rparr> in
          case insert_kg_edges (store w)
                 \<lparr>e_id = uuid_generate_v4 ev (uuid_calls w), source_id = n_id src,
                  target_id = n_id tgt, relationship = rel, e_properties = JObj [],
                  weight = 1\<rparr> of
            Inl error \<Rightarrow> (Inl (StoreError error), w1)
          | Inr (data, s') \<Rightarrow> (Inr (EdgeRow data), w1\<lparr>store := s'\<rparr>))
     | _ \<Rightarrow> (Inr (ErrorMessage ''One or both nodes not found''), w))"

fun get_field :: "json \<Rightarrow> string \<Rightarrow> json option" where
  "get_field (JObj kvs) k = map_of (rev kvs) k"
| "get_field _ k = None"

definition node_view_of :: "kg_node \<Rightarrow> node_view" where
  "node_view_of node = \<lparr>v_id = n_id node, v_label = n_label node,
     v_type = (case n_type node of None \<Rightarrow> ''entity'' | Some t \<Rightarrow> if t = [] then ''entity'' else t),
     v_description = get_field (n_properties node) ''description''\<rparr>"

definition edge_view_of :: "kg_edge \<Rightarrow> edge_view" where
  "edge_view_of edge = \<lparr>ev_id = e_id edge, ev_source = source_id edge,
     ev_target = target_id edge, ev_label = relationship edge\<rparr>"

text \<open>
  The function \<open>get_node_connections\<close> that \<open>updateGraph\<close> calls for a focused refresh
  is not defined by the schema, so that call is answered with an error.
\<close>

definition updateGraph :: "(update_op \<times> string option) execute" where
  "updateGraph = (\<lambda>(operation, nodeId) w.
     case operation of
       Refresh \<Rightarrow>
         (if nodeId \<noteq> None \<and> nodeId \<noteq> Some [] then (Inl (StoreError UndefinedFunction), w)
          else let data = take 50 (kg_nodes (store w)) in
            (Inr (GraphRefresh (map node_view_of data)
               (concat (map (\<lambda>node.
                  map edge_view_of [e \<leftarrow> kg_edges (store w). source_id e = n_id node]) data))), w))
     | Add \<Rightarrow> (Inr GraphAdd, w))"

definition searchNodesSemanticaly :: "env \<Rightarrow> (string \<times> real \<times> int) execute" where
  "searchNodesSemanticaly ev = (\<lambda>(query, threshold, limit) w.
     let (embedding, w1) = generateEmbedding ev query w in
     case search_nodes_semantic (vector_cosine_ops ev) (store w1) embedding threshold limit of
       Inl error \<Rightarrow> (Inl (StoreError error), w1)
     | Inr data \<Rightarrow> (Inr (NodeMatches data), w1))"

text \<open>
  A tool is its schema applied to the arguments (defaults filled in; arguments of another
  shape are refused before \<open>execute\<close> runs) followed by its \<open>execute\<close>.
\<close>

datatype invocation = Returned tool_value | Threw js_exn | InvalidToolArguments | NoSuchTool

type_synonym tool = "tool_args \<Rightarrow> world \<Rightarrow> invocation \<times> world"

definition settle :: "(js_exn + tool_value) \<times> world \<Rightarrow> invocation \<times> world" where
  "settle r = (case r of (Inl error, w) \<Rightarrow> (Threw error, w) | (Inr v, w) \<Rightarrow> (Returned v, w))"

definition default_to :: "'a \<Rightarrow> 'a option \<Rightarrow> 'a" where
  "default_to d v = (case v of None \<Rightarrow> d | Some x \<Rightarrow> x)"

fun searchDocuments_tool :: "env \<Rightarrow> tool" where
  "searchDocuments_tool ev (SearchVectorArgs query threshold limit) w =
     settle (createSafeExecute (searchDocuments ev) ''searchDocuments''
       (query, default_to 0.5 threshold, default_to 10 limit) w)"
| "searchDocuments_tool ev _ w = (InvalidToolArguments, w)"

fun traverseGraph_tool :: tool where
  "traverseGraph_tool (SearchGraphArgs nodeLabel maxDepth) w =
     settle (traverseGraph (nodeLabel, default_to 2 maxDepth) w)"
| "traverseGraph_tool _ w = (InvalidToolArguments, w)"

fun createNode_tool :: "env \<Rightarrow> tool" where
  "createNode_tool ev (CreateNodeArgs lbl typ props) w =
     settle (createNode ev (lbl, typ, default_to (JObj []) props) w)"
| "createNode_tool ev _ w = (InvalidToolArguments, w)"

fun createEdge_tool :: "env \<Rightarrow> tool" where
  "createEdge_tool ev (CreateEdgeArgs sourceLabel targetLabel rel) w =
     settle (createEdge ev (sourceLabel, targetLabel, rel) w)"
| "createEdge_tool ev _ w = (InvalidToolArguments, w)"

fun updateGraph_tool :: tool where
  "updateGraph_tool (UpdateGraphArgs operation nodeId) w = settle (updateGraph (operation, nodeId) w)"
| "updateGraph_tool _ w = (InvalidToolArguments, w)"

fun searchNodesSemanticaly_tool :: "env \<Rightarrow> tool" where
  "searchNodesSemanticaly_tool ev (SearchVectorArgs query threshold limit) w =
     settle (searchNodesSemanticaly ev (query, default_to 0.5 threshold, default_to 10 limit) w)"
| "searchNodesSemanticaly_tool ev _ w = (InvalidToolArguments, w)"

definition tools :: "env \<Rightarrow> mode \<Rightarrow> (string \<times> tool) list" where
  "tools ev m =
     (if m = Vector \<or> m = Hybrid then [(''searchDocuments'', searchDocuments_tool ev)] else []) @
     (if m = Graph \<or> m = Hybrid then
        [(''traverseGraph'', traverseGraph_tool), (''createNode'', createNode_tool ev),
         (''createEdge'', createEdge_tool ev), (''updateGraph'', updateGraph_tool)] else []) @
     (if m = Hybrid then [(''searchNodesSemanticaly'', searchNodesSemanticaly_tool ev)] else [])"

text \<open>
  \<open>streamText\<close> lets the language model call the tools for at most \<open>maxSteps = 5\<close>
  steps. The model's choices are a parameter: the list of steps, each a list of calls.
  Every call is looked up in the tools of the mode and recorded with its result. What
  the SDK does after a rejected \<open>execute\<close> is outside the repository; the step list is
  arbitrary, so a run that is cut short is the run of a shorter list.
\<close>

record tool_call =
  toolName :: string
  args :: tool_args

record entry =
  operation :: string
  inputs :: tool_args
  outputs :: invocation

definition invoke :: "env \<Rightarrow> mode \<Rightarrow> tool_call \<Rightarrow> world \<Rightarrow> entry \<times> world" where
  "invoke ev m c w =
     (case map_of (tools ev m) (toolName c) of
        None \<Rightarrow> (\<lparr>operation = toolName c, inputs = args c, outputs = NoSuchTool\<rparr>, w)
      | Some t \<Rightarrow> (let (r, w') = t (args c) w in
          (\<lparr>operation = toolName c, inputs = args c, outputs = r\<rparr>, w')))"

fun run_calls :: "env \<Rightarrow> mode \<Rightarrow> tool_call list \<Rightarrow> world \<Rightarrow> entry list \<times> world" where
  "run_calls ev m [] w = ([], w)"
| "run_calls ev m (c # cs) w =
     (let (e, w1) = invoke ev m c w; (es, w2) = run_calls ev m cs w1 in (e # es, w2))"

definition maxSteps :: nat where
  "maxSteps = 5"

definition streamText :: "env \<Rightarrow> mode \<Rightarrow> tool_call list list \<Rightarrow> world \<Rightarrow> entry list \<times> world" where
  "streamText ev m steps w = run_calls ev m (concat (take maxSteps steps)) w"

datatype response = Response400 string | Response500 | DataStreamResponse "entry list"

definition is_array :: "json option \<Rightarrow> bool" where
  "is_array v = (case v of Some (JArr _) \<Rightarrow> True | _ \<Rightarrow> False)"

definition parse_mode :: "json option \<Rightarrow> mode option" where
  "parse_mode v =
     (if v = Some (JStr ''vector'') then Some Vector
      else if v = Some (JStr ''graph'') then Some Graph
      else if v = Some (JStr ''hybrid'') then Some Hybrid
      else None)"

text \<open>
  \<open>POST\<close>: the body is \<open>None\<close> when \<open>req.json()\<close> throws; destructuring \<open>null\<close> throws
  too; both end in the \<open>catch\<close> block with status 500. A field is looked up as
  \<open>JSON.parse\<close> leaves it: the last of several equal keys wins, and a body that is no
  object has no fields. \<open>createServerSideClient\<close> is not among the sources and is taken
  to return the client of the store.
\<close>

definition POST :: "env \<Rightarrow> json option \<Rightarrow> tool_call list list \<Rightarrow> world \<Rightarrow> response \<times> world" where
  "POST ev body steps w =
     (case body of
        None \<Rightarrow> (Response500, w)
      | Some JNull \<Rightarrow> (Response500, w)
      | Some b \<Rightarrow>
          let messages = get_field b ''messages''; mode = get_field b ''mode'' in
          if \<not> is_array messages then (Response400 ''Invalid messages format'', w)
          else case parse_mode mode of
            None \<Rightarrow> (Response400 ''Invalid mode. Must be vector, graph, or hybrid'', w)
          | Some m \<Rightarrow> (let (es, w') = streamText ev m steps w in (DataStreamResponse es, w')))"

section \<open>Notions of the specification\<close>

text \<open>
  Connectivity as the specification speaks of it: two nodes are adjacent when an edge
  joins them in either direction and the second is a row of \<open>kg_nodes\<close>; a walk is a
  non-empty sequence of nodes, each adjacent to the next. A walk of \<open>k + 1\<close> nodes
  reaches its last node at depth \<open>k\<close>.
\<close>

definition edge_between :: "db \<Rightarrow> uuid \<Rightarrow> uuid \<Rightarrow> bool" where
  "edge_between s u v = (\<exists>e \<in> set (kg_edges s).
     (source_id e = u \<and> target_id e = v) \<or> (target_id e = u \<and> source_id e = v))"

definition adjacent :: "db \<Rightarrow> uuid \<Rightarrow> uuid \<Rightarrow> bool" where
  "adjacent s u v = (edge_between s u v \<and> node_exists s v)"

fun walk :: "db \<Rightarrow> uuid list \<Rightarrow> bool" where
  "walk s [] = False"
| "walk s [v] = True"
| "walk s (u # v # p) = (adjacent s u v \<and> walk s (v # p))"

text \<open>The sort key of \<open>ORDER BY node_id, depth\<close>.\<close>

definition ng_key :: "ng_row \<Rightarrow> uuid \<times> int" where
  "ng_key r = (node_id r, depth r)"

text \<open>
  The graph of the scenarios: nodes A, B, C (ids 1, 2, 3) and the edges A\<rightarrow>B (x, weight 1),
  B\<rightarrow>C (y, weight 1), A\<rightarrow>C (z, weight 5).
\<close>

definition mk_node :: "uuid \<Rightarrow> string \<Rightarrow> kg_node" where
  "mk_node i l = \<lparr>n_id = i, n_label = l, n_type = None, n_properties = JObj [], n_embedding = None\<rparr>"

definition mk_edge :: "uuid \<Rightarrow> uuid \<Rightarrow> uuid \<Rightarrow> string \<Rightarrow> real \<Rightarrow> kg_edge" where
  "mk_edge i a b r w = \<lparr>e_id = i, source_id = a, target_id = b, relationship = r,
     e_properties = JObj [], weight = w\<rparr>"

definition abc_db :: db where
  "abc_db = \<lparr>kg_nodes = [mk_node 1 ''A'', mk_node 2 ''B'', mk_node 3 ''C''],
     kg_edges = [mk_edge 11 1 2 ''x'' 1, mk_edge 12 2 3 ''y'' 1, mk_edge 13 1 3 ''z'' 5],
     document_chunks = []\<rparr>"

text \<open>
  What a result \<open>R\<close> of connected-node discovery from \<open>nid\<close> with bound \<open>md\<close> has to
  satisfy: the start node is there, and only at depth 0; no node id occurs twice; the rows
  are ordered by node id; no depth exceeds the bound (depth 0 of the start node apart,
  should the bound be negative); the depth of a row is the length of a shortest walk over
  edges, followed in either direction, from the start node; and every node that such a
  walk of at most \<open>md\<close> edges reaches has a row.
\<close>

definition connected_spec :: "db \<Rightarrow> uuid \<Rightarrow> int \<Rightarrow> ng_row list \<Rightarrow> bool" where
  "connected_spec s nid md R \<longleftrightarrow>
     (\<exists>r \<in> set R. node_id r = nid) \<and>
     (\<forall>r \<in> set R. node_id r = nid \<longrightarrow> depth r = 0) \<and>
     distinct (map node_id R) \<and> sorted (map node_id R) \<and>
     (\<forall>r \<in> set R. 0 \<le> depth r \<and> depth r \<le> max 0 md) \<and>
     (\<forall>r \<in> set R. \<exists>p. walk s p \<and> hd p = nid \<and> last p = node_id r \<and>
        int (length p) = depth r + 1) \<and>
     (\<forall>r \<in> set R. \<forall>p. walk s p \<and> hd p = nid \<and> last p = node_id r \<longrightarrow>
        depth r + 1 \<le> int (length p)) \<and>
     (\<forall>p. walk s p \<and> hd p = nid \<and> int (length p) \<le> md + 1 \<longrightarrow>
        last p \<in> node_id ` set R)"

text \<open>
  For the scenarios the operator is the cosine distance as pgvector computes it: an error
  for vectors of different dimensions, NaN when one of them is the zero vector, and
  otherwise one minus the inner product over the root of the product of the squared
  norms. The float8 subtraction is the exact one, which it is on the similarities of the
  scenarios, and the scan is sequential. The vectors have the 1536 components of the
  \<open>vector(1536)\<close> columns.
\<close>

definition inner_product :: "vector \<Rightarrow> vector \<Rightarrow> real" where
  "inner_product a b = sum_list (map2 (*) a b)"

definition cosine_distance :: "vector \<Rightarrow> vector \<Rightarrow> pg_error + float8" where
  "cosine_distance a b =
     (if length a \<noteq> length b then Inl DataException
      else if inner_product a a * inner_product b b = 0 then Inr NaN
      else Inr (Finite (1 - inner_product a b / sqrt (inner_product a a * inner_product b b))))"

definition exact_ops :: pg_ops where
  "exact_ops = \<lparr>cosine_op = cosine_distance, float8mi = (-), scanned = (\<lambda>q i. True)\<rparr>"

definition pad :: "real list \<Rightarrow> vector" where
  "pad xs = xs @ replicate (1536 - length xs) 0"

definition mk_chunk :: "uuid \<Rightarrow> string \<Rightarrow> vector option \<Rightarrow> document_chunk" where
  "mk_chunk i txt e = \<lparr>c_id = i, c_document_id = None, chunk_index = 0, c_content = txt,
     c_embedding = e, c_metadata = JObj []\<rparr>"

definition embedded_node :: "uuid \<Rightarrow> string \<Rightarrow> vector \<Rightarrow> kg_node" where
  "embedded_node i l e = (mk_node i l)\<lparr>n_embedding := Some e\<rparr>"

definition three_chunks :: db where
  "three_chunks = \<lparr>kg_nodes = [embedded_node 1 ''far'' (pad [3, 4]),
       embedded_node 2 ''near'' (pad [9, 3, 3, 1]), embedded_node 3 ''middle'' (pad [3, 2, 1, 1, 1]),
       mk_node 4 ''not embedded''], kg_edges = [],
     document_chunks = [mk_chunk 1 ''far'' (Some (pad [3, 4])),
       mk_chunk 2 ''near'' (Some (pad [9, 3, 3, 1])),
       mk_chunk 3 ''middle'' (Some (pad [3, 2, 1, 1, 1])),
       mk_chunk 4 ''not embedded'' None]\<rparr>"

definition twin_chunks :: db where
  "twin_chunks = \<lparr>kg_nodes = [], kg_edges = [],
     document_chunks = [mk_chunk 1 ''one'' (Some (pad [1])), mk_chunk 2 ''two'' (Some (pad [1]))]\<rparr>"

definition zero_chunk :: db where
  "zero_chunk = \<lparr>kg_nodes = [], kg_edges = [],
     document_chunks = [mk_chunk 1 ''zero'' (Some (pad [])), mk_chunk 2 ''near'' (Some (pad [9, 3, 3, 1]))]\<rparr>"

text \<open>An index scan whose probed lists hold no row.\<close>

definition empty_probe_ops :: pg_ops where
  "empty_probe_ops = exact_ops\<lparr>scanned := (\<lambda>q i. False)\<rparr>"

text \<open>
  What the rows of a similarity search have to satisfy. Each row stems from a visited
  entity with a stored embedding on which the operator yields a float8, carries one minus
  that distance as similarity, and the similarity passes the comparison with the
  threshold (a number strictly above it, or NaN). The rows are in ascending order of
  distance, NaN last; where the float8 subtraction from one is antitone, as it is, this
  is the descending order of the similarities, equal neighbours allowed and NaN last.
  There are at most \<open>cnt\<close> rows.
\<close>

fun desc_key :: "float8 \<Rightarrow> bool \<times> real" where
  "desc_key (Finite x) = (False, - x)"
| "desc_key NaN = (True, 0)"

definition descending :: "float8 list \<Rightarrow> bool" where
  "descending xs = sorted (map desc_key xs)"

definition chunk_search_spec ::
  "pg_ops \<Rightarrow> db \<Rightarrow> vector \<Rightarrow> real \<Rightarrow> int \<Rightarrow> chunk_match list \<Rightarrow> bool" where
  "chunk_search_spec ops s q thr cnt rows \<longleftrightarrow>
     (\<forall>m \<in> set rows. \<exists>c \<in> set (document_chunks s). \<exists>e d. scanned ops q (c_id c) \<and>
        c_embedding c = Some e \<and> cosine_op ops e q = Inr d \<and>
        cm_id m = c_id c \<and> cm_content m = c_content c \<and>
        cm_similarity m = similarity ops d \<and> float8_gt (cm_similarity m) thr) \<and>
     (\<exists>ds. map cm_similarity rows = map (similarity ops) ds \<and> sorted (map float8_key ds)) \<and>
     ((\<forall>a b. a \<le> b \<longrightarrow> float8mi ops 1 b \<le> float8mi ops 1 a) \<longrightarrow>
        descending (map cm_similarity rows)) \<and>
     int (length rows) \<le> cnt"

definition node_search_spec ::
  "pg_ops \<Rightarrow> db \<Rightarrow> vector \<Rightarrow> real \<Rightarrow> int \<Rightarrow> node_match list \<Rightarrow> bool" where
  "node_search_spec ops s q thr cnt rows \<longleftrightarrow>
     (\<forall>m \<in> set rows. \<exists>n \<in> set (kg_nodes s). \<exists>e d. scanned ops q (n_id n) \<and>
        n_embedding n = Some e \<and> cosine_op ops e q = Inr d \<and>
        m_id m = n_id n \<and> m_label m = n_label n \<and>
        m_similarity m = similarity ops d \<and> float8_gt (m_similarity m) thr) \<and>
     (\<exists>ds. map m_similarity rows = map (similarity ops) ds \<and> sorted (map float8_key ds)) \<and>
     ((\<forall>a b. a \<le> b \<longrightarrow> float8mi ops 1 b \<le> float8mi ops 1 a) \<longrightarrow>
        descending (map m_similarity rows)) \<and>
     int (length rows) \<le> cnt"

text \<open>
  The constraints the schema declares on the graph tables, as a predicate on a store:
  the triple (source, target, relationship) is unique among the edges, the primary keys
  are unique, every edge refers to existing nodes, and a relationship fits its column.
\<close>

definition edges_unique :: "db \<Rightarrow> bool" where
  "edges_unique s = distinct (map edge_triple (kg_edges s))"

definition db_invariant :: "db \<Rightarrow> bool" where
  "db_invariant s \<longleftrightarrow>
     edges_unique s \<and> distinct (map e_id (kg_edges s)) \<and> distinct (map n_id (kg_nodes s)) \<and>
     (\<forall>e \<in> set (kg_edges s). node_exists s (source_id e) \<and> node_exists s (target_id e) \<and>
        length (relationship e) \<le> 255)"

definition preserves :: "tool \<Rightarrow> bool" where
  "preserves t \<longleftrightarrow> (\<forall>a w. db_invariant (store w) \<longrightarrow> db_invariant (store (snd (t a w))))"

text \<open>
  A concrete environment and state for the scenarios: the embeddings endpoint is down,
  \<open>Math.random()\<close> yields one half, and the store holds the graph A, B, C.
\<close>

definition ev0 :: env where
  "ev0 = \<lparr>embeddings_create = (\<lambda>_. None), math_random = (\<lambda>_. 1 / 2),
     vector_cosine_ops = exact_ops,
     uuid_generate_v4 = (\<lambda>n. of_nat (100 + n))\<rparr>"

definition w0 :: world where
  "w0 = \<lparr>store = abc_db, random_calls = 0, uuid_calls = 0, NODE_ENV = ''production''\<rparr>"

text \<open>
  The provenance of a response: the entries of the operations that ran, that is, the
  calls that reached an \<open>execute\<close>.
\<close>

definition executed :: "entry \<Rightarrow> bool" where
  "executed e = (outputs e \<noteq> NoSuchTool \<and> outputs e \<noteq> InvalidToolArguments)"

definition provenance :: "entry list \<Rightarrow> entry list" where
  "provenance es = filter executed es"

definition request_field :: "json option \<Rightarrow> string \<Rightarrow> json option" where
  "request_field body k = (case body of None \<Rightarrow> None | Some b \<Rightarrow> get_field b k)"

text \<open>
  An environment in which the embeddings endpoint answers the query \<open>mars\<close> with the
  very vector that the fallback of \<open>ev0\<close> produces, and a state over the store of the
  three embedded chunks.
\<close>

definition ev1 :: env where
  "ev1 = ev0\<lparr>embeddings_create :=
     (\<lambda>t. if t = ''mars'' then Some (map (\<lambda>i. math_random ev0 (0 + i)) [0..<1536]) else None)\<rparr>"

definition w1 :: world where
  "w1 = \<lparr>store = three_chunks, random_calls = 0, uuid_calls = 0, NODE_ENV = ''production''\<rparr>"

section \<open>Verification\<close>

declare node_graph_loop.simps [simp del]

declare paths_loop.simps [simp del]

lemma walk_snoc: "p \<noteq> [] \<Longrightarrow> walk s (p @ [v]) = (walk s p \<and> adjacent s (last p) v)"
  by (induction s p rule: walk.induct) auto

lemma walk_append:
  "xs \<noteq> [] \<Longrightarrow> ys \<noteq> [] \<Longrightarrow>
   walk s (xs @ ys) = (walk s xs \<and> adjacent s (last xs) (hd ys) \<and> walk s ys)"
proof (induction s xs rule: walk.induct)
  case (2 s v)
  then show ?case by (cases ys) auto
qed auto

lemma walk_last_exists:
  "walk s p \<Longrightarrow> 2 \<le> length p \<Longrightarrow> node_exists s (last p)"
  by (induction s p rule: walk.induct) (auto simp: adjacent_def Suc_le_eq)

lemma walk_shorten:
  "walk s p \<Longrightarrow> \<exists>q. walk s q \<and> distinct q \<and> hd q = hd p \<and> last q = last p \<and> length q \<le> length p"
proof (induction "length p" arbitrary: p rule: less_induct)
  case less
  show ?case
  proof (cases "distinct p")
    case True
    with less.prems show ?thesis by blast
  next
    case False
    then obtain xs ys zs x where p: "p = xs @ [x] @ ys @ [x] @ zs"
      using not_distinct_decomp by blast
    let ?q = "(xs @ [x]) @ zs"
    have w1: "walk s (xs @ [x])"
    proof -
      have "walk s ((xs @ [x]) @ (ys @ [x] @ zs))" using less.prems p by simp
      then show ?thesis by (subst (asm) walk_append) auto
    qed
    have wq: "walk s ?q"
    proof (cases "zs = []")
      case True
      then show ?thesis using w1 by simp
    next
      case False
      have "walk s ((xs @ [x] @ ys) @ ([x] @ zs))" using less.prems p by simp
      then have "walk s ([x] @ zs)" by (subst (asm) walk_append) auto
      then have "adjacent s x (hd zs) \<and> walk s zs" using False by (cases zs) auto
      then show ?thesis using w1 False by (subst walk_append) auto
    qed
    have "length ?q < length p" using p by simp
    from less.hyps[OF this wq] obtain q where
      "walk s q" "distinct q" "hd q = hd ?q" "last q = last ?q" "length q \<le> length ?q"
      by blast
    moreover have "hd ?q = hd p" using p by (cases xs) auto
    moreover have "last ?q = last p" using p by (cases "zs = []") auto
    moreover have "length ?q \<le> length p" using p by simp
    ultimately show ?thesis by (intro exI[of _ q]) auto
  qed
qed

lemma node_graph_step_Nil: "node_graph_step s md [] = []"
  by (simp add: node_graph_step_def)

lemma ng_funpow_Nil: "((node_graph_step s md) ^^ k) [] = []"
  by (induction k) (auto simp: node_graph_step_Nil)

lemma ng_loop_set:
  "set (node_graph_loop s md work) = (\<Union>k. set (((node_graph_step s md) ^^ k) work))"
proof (induction s md work rule: node_graph_loop.induct)
  case (1 s md work)
  show ?case
  proof (cases "work = []")
    case True
    then show ?thesis by (simp add: node_graph_loop.simps ng_funpow_Nil)
  next
    case False
    let ?f = "\<lambda>k. set (((node_graph_step s md) ^^ k) work)"
    have "set (node_graph_loop s md work) =
        set work \<union> (\<Union>k. set (((node_graph_step s md) ^^ k) (node_graph_step s md work)))"
      using False 1 by (subst node_graph_loop.simps) simp
    also have "\<dots> = ?f 0 \<union> (\<Union>k. ?f (Suc k))"
      by (simp add: funpow_swap1)
    also have "\<dots> = (\<Union>k. ?f k)"
    proof
      show "?f 0 \<union> (\<Union>k. ?f (Suc k)) \<subseteq> (\<Union>k. ?f k)" by blast
      show "(\<Union>k. ?f k) \<subseteq> ?f 0 \<union> (\<Union>k. ?f (Suc k))"
      proof
        fix x assume "x \<in> (\<Union>k. ?f k)"
        then obtain k where "x \<in> ?f k" by blast
        then show "x \<in> ?f 0 \<union> (\<Union>k. ?f (Suc k))" by (cases k) blast+
      qed
    qed
    finally show ?thesis .
  qed
qed

lemma node_graph_step_mem:
  "r \<in> set (node_graph_step s md W) \<longleftrightarrow>
   (\<exists>ng \<in> set W. \<exists>n \<in> set (kg_nodes s).
      edge_between s (node_id ng) (n_id n) \<and> depth ng < md \<and> n_id n \<notin> set (path ng) \<and>
      r = ng_of n (depth ng + 1) (path ng @ [n_id n]))"
proof
  assume "r \<in> set (node_graph_step s md W)"
  then obtain ng e n where "ng \<in> set W" "e \<in> set (kg_edges s)" "n \<in> set (kg_nodes s)"
      "(source_id e = node_id ng \<and> target_id e = n_id n) \<or>
       (target_id e = node_id ng \<and> source_id e = n_id n)"
      "depth ng < md" "n_id n \<notin> set (path ng)"
      "r = ng_of n (depth ng + 1) (path ng @ [n_id n])"
    unfolding node_graph_step_def by (auto split: if_splits)
  then show "\<exists>ng \<in> set W. \<exists>n \<in> set (kg_nodes s).
      edge_between s (node_id ng) (n_id n) \<and> depth ng < md \<and> n_id n \<notin> set (path ng) \<and>
      r = ng_of n (depth ng + 1) (path ng @ [n_id n])"
    unfolding edge_between_def by blast
next
  assume "\<exists>ng \<in> set W. \<exists>n \<in> set (kg_nodes s).
      edge_between s (node_id ng) (n_id n) \<and> depth ng < md \<and> n_id n \<notin> set (path ng) \<and>
      r = ng_of n (depth ng + 1) (path ng @ [n_id n])"
  then obtain ng n e where "ng \<in> set W" "n \<in> set (kg_nodes s)" "e \<in> set (kg_edges s)"
      "(source_id e = node_id ng \<and> target_id e = n_id n) \<or>
       (target_id e = node_id ng \<and> source_id e = n_id n)"
      "depth ng < md" "n_id n \<notin> set (path ng)"
      "r = ng_of n (depth ng + 1) (path ng @ [n_id n])"
    unfolding edge_between_def by blast
  then show "r \<in> set (node_graph_step s md W)"
    unfolding node_graph_step_def by fastforce
qed

lemma node_graph_base_mem:
  "r \<in> set (node_graph_base s nid) \<longleftrightarrow>
   (\<exists>n \<in> set (kg_nodes s). n_id n = nid \<and> r = ng_of n 0 [n_id n])"
  unfolding node_graph_base_def by auto

lemma ng_of_sel [simp]:
  "node_id (ng_of n d p) = n_id n" "depth (ng_of n d p) = d" "path (ng_of n d p) = p"
  by (simp_all add: ng_of_def)

lemma ng_rows_sound:
  "r \<in> set (((node_graph_step s md) ^^ k) (node_graph_base s nid)) \<Longrightarrow>
   depth r = int k \<and> length (path r) = Suc k \<and> hd (path r) = nid \<and>
   last (path r) = node_id r \<and> distinct (path r) \<and> walk s (path r) \<and>
   (k = 0 \<or> int k \<le> md) \<and> node_exists s (node_id r)"
proof (induction k arbitrary: r)
  case 0
  then show ?case by (auto simp: node_graph_base_mem node_exists_def)
next
  case (Suc k)
  from Suc.prems obtain ng n where ng: "ng \<in> set (((node_graph_step s md) ^^ k) (node_graph_base s nid))"
    and n: "n \<in> set (kg_nodes s)" and eb: "edge_between s (node_id ng) (n_id n)"
    and d: "depth ng < md" and fresh: "n_id n \<notin> set (path ng)"
    and r: "r = ng_of n (depth ng + 1) (path ng @ [n_id n])"
    by (auto simp: node_graph_step_mem)
  note ih = Suc.IH[OF ng]
  have ne: "path ng \<noteq> []" using ih by auto
  have ex: "node_exists s (n_id n)" using n by (auto simp: node_exists_def)
  have "walk s (path ng @ [n_id n])"
    using ih eb ex ne by (simp add: walk_snoc adjacent_def)
  moreover have "hd (path ng @ [n_id n]) = nid" using ih ne by simp
  moreover have "int (Suc k) \<le> md" using ih d by simp
  ultimately show ?case using ih r fresh ex by simp
qed

lemma ng_rows_complete:
  "n \<in> set (kg_nodes s) \<Longrightarrow> walk s p \<Longrightarrow> distinct p \<Longrightarrow> hd p = nid \<Longrightarrow> last p = n_id n \<Longrightarrow>
   node_exists s nid \<Longrightarrow> length p = Suc k \<Longrightarrow> k = 0 \<or> int k \<le> md \<Longrightarrow>
   ng_of n (int k) p \<in> set (((node_graph_step s md) ^^ k) (node_graph_base s nid))"
proof (induction k arbitrary: p n)
  case 0
  then obtain v where "p = [v]" by (cases p) auto
  with 0 show ?case by (auto simp: node_graph_base_mem)
next
  case (Suc k)
  define q where "q = butlast p"
  define v where "v = last p"
  have pne: "p \<noteq> []" using Suc.prems by auto
  have p: "p = q @ [v]" using pne by (simp add: q_def v_def)
  have lq: "length q = Suc k" using Suc.prems p by simp
  then have qne: "q \<noteq> []" by auto
  have wq: "walk s q" and adj: "adjacent s (last q) v"
    using Suc.prems(2) p qne by (simp_all add: walk_snoc)
  have dq: "distinct q" and fresh: "v \<notin> set q" using Suc.prems(3) p by auto
  have hq: "hd q = nid" using Suc.prems(4) p qne by simp
  have "node_exists s (last q)"
  proof (cases "k = 0")
    case True
    then obtain u where "q = [u]" using lq by (cases q) auto
    then show ?thesis using hq Suc.prems(6) by simp
  next
    case False
    then show ?thesis using walk_last_exists[OF wq] lq by simp
  qed
  then obtain n' where n': "n' \<in> set (kg_nodes s)" "n_id n' = last q"
    by (auto simp: node_exists_def)
  have bound: "int (Suc k) \<le> md" using Suc.prems(8) by simp
  have "k = 0 \<or> int k \<le> md" using bound by simp
  from Suc.IH[OF n'(1) wq dq hq n'(2)[symmetric] Suc.prems(6) lq this]
  have ih: "ng_of n' (int k) q \<in> set (((node_graph_step s md) ^^ k) (node_graph_base s nid))" .
  have vn: "v = n_id n" using Suc.prems(5) by (simp add: v_def)
  have "ng_of n (int (Suc k)) p \<in>
      set (node_graph_step s md (((node_graph_step s md) ^^ k) (node_graph_base s nid)))"
    unfolding node_graph_step_mem
    apply (rule bexI[OF _ ih])
    apply (rule bexI[OF _ Suc.prems(1)])
    using adj fresh bound n'(2) p vn by (simp add: adjacent_def add.commute)
  then show ?case by simp
qed

lemma distinct_on_subset: "set (distinct_on_node_id xs) \<subseteq> set xs"
  by (induction xs rule: distinct_on_node_id.induct) auto

lemma distinct_on_ids: "node_id ` set (distinct_on_node_id xs) = node_id ` set xs"
  by (induction xs rule: distinct_on_node_id.induct) auto

lemma ng_key_le: "ng_key a \<le> ng_key b \<longleftrightarrow>
    node_id a < node_id b \<or> (node_id a = node_id b \<and> depth a \<le> depth b)"
  by (auto simp: ng_key_def less_eq_prod_def)

lemma distinct_on_sorted:
  "sorted (map ng_key xs) \<Longrightarrow> sorted_wrt (<) (map node_id (distinct_on_node_id xs))"
proof (induction xs rule: distinct_on_node_id.induct)
  case (3 r r' rs)
  show ?case
  proof (cases "node_id r = node_id r'")
    case True
    then show ?thesis using 3 by simp
  next
    case False
    have "node_id r < node_id x" if "x \<in> set (r' # rs)" for x
    proof -
      have "ng_key r \<le> ng_key r'" "ng_key r' \<le> ng_key x" using 3(3) that by auto
      then show ?thesis using False by (auto simp: ng_key_le)
    qed
    then have "\<forall>x \<in> set (distinct_on_node_id (r' # rs)). node_id r < node_id x"
      using distinct_on_subset[of "r' # rs"] by blast
    then show ?thesis using 3 False by simp
  qed
qed auto

lemma distinct_on_min:
  "sorted (map ng_key xs) \<Longrightarrow> r \<in> set (distinct_on_node_id xs) \<Longrightarrow> x \<in> set xs \<Longrightarrow>
   node_id x = node_id r \<Longrightarrow> depth r \<le> depth x"
proof (induction xs arbitrary: r x rule: distinct_on_node_id.induct)
  case (3 a b rs)
  have ab: "ng_key a \<le> ng_key b" using 3(3) by simp
  have brs: "ng_key b \<le> ng_key y" if "y \<in> set (b # rs)" for y using 3(3) that by auto
  show ?case
  proof (cases "node_id a = node_id b")
    case True
    have s': "sorted (map ng_key (a # rs))" using 3(3) by simp
    have rin: "r \<in> set (distinct_on_node_id (a # rs))" using 3(4) True by simp
    show ?thesis
    proof (cases "x = b")
      case xb: True
      have "depth r \<le> depth a"
        using "3.IH"(1)[OF True s' rin, of a] True xb 3(6) by simp
      moreover have "depth a \<le> depth b" using ab True by (simp add: ng_key_le)
      ultimately show ?thesis using xb by simp
    next
      case False
      then have "x \<in> set (a # rs)" using 3(5) by auto
      then show ?thesis using "3.IH"(1)[OF True s' rin _ 3(6)] by simp
    qed
  next
    case False
    have s': "sorted (map ng_key (b # rs))" using 3(3) by simp
    have lt: "node_id a < node_id y" if "y \<in> set (b # rs)" for y
      using ab brs[OF that] False by (auto simp: ng_key_le)
    from 3(4) False have "r = a \<or> r \<in> set (distinct_on_node_id (b # rs))" by simp
    then show ?thesis
    proof
      assume ra: "r = a"
      have "x = a" using lt[of x] 3(5,6) ra by auto
      then show ?thesis using ra by simp
    next
      assume rin: "r \<in> set (distinct_on_node_id (b # rs))"
      then have "r \<in> set (b # rs)" using distinct_on_subset by blast
      then have "x \<noteq> a" using lt[of r] 3(6) by auto
      then have "x \<in> set (b # rs)" using 3(5) by auto
      then show ?thesis using "3.IH"(2)[OF False s' rin _ 3(6)] by simp
    qed
  qed
qed auto

lemma gcn_key: "get_connected_nodes s nid md =
    distinct_on_node_id (sort_key ng_key (node_graph s nid md))"
  by (simp add: get_connected_nodes_def ng_key_def[abs_def])

lemma node_graph_mem:
  "r \<in> set (node_graph s nid md) \<longleftrightarrow>
   (\<exists>k. r \<in> set (((node_graph_step s md) ^^ k) (node_graph_base s nid)))"
  by (simp add: node_graph_def ng_loop_set)

lemma gcn_subset: "set (get_connected_nodes s nid md) \<subseteq> set (node_graph s nid md)"
  using distinct_on_subset[of "sort_key ng_key (node_graph s nid md)"] by (simp add: gcn_key)

lemma gcn_ids: "node_id ` set (get_connected_nodes s nid md) = node_id ` set (node_graph s nid md)"
  by (simp add: gcn_key distinct_on_ids)

lemma gcn_sorted: "sorted_wrt (<) (map node_id (get_connected_nodes s nid md))"
  unfolding gcn_key by (rule distinct_on_sorted) simp

lemma gcn_min:
  "r \<in> set (get_connected_nodes s nid md) \<Longrightarrow> x \<in> set (node_graph s nid md) \<Longrightarrow>
   node_id x = node_id r \<Longrightarrow> depth r \<le> depth x"
  unfolding gcn_key by (rule distinct_on_min[of "sort_key ng_key (node_graph s nid md)"]) simp_all







lemmas ev = get_connected_nodes_def node_graph_def node_graph_loop.simps node_graph_base_def
  node_graph_step_def ng_of_def abc_db_def mk_node_def mk_edge_def

lemma walk_nonempty: "walk s p \<Longrightarrow> p \<noteq> []"
  by (cases p) auto

lemma gcn_row:
  assumes "r \<in> set (get_connected_nodes s nid md)"
  obtains k where "r \<in> set (((node_graph_step s md) ^^ k) (node_graph_base s nid))"
  using assms gcn_subset node_graph_mem by blast

lemma simple_walk_row:
  assumes ex: "node_exists s nid" and w: "walk s q" and d: "distinct q" and h: "hd q = nid"
    and b: "length q = 1 \<or> int (length q) \<le> md + 1"
  shows "\<exists>x \<in> set (node_graph s nid md). node_id x = last q \<and> depth x = int (length q) - 1"
proof -
  have qne: "q \<noteq> []" using w by (rule walk_nonempty)
  define k where "k = length q - 1"
  have lk: "length q = Suc k" using qne by (simp add: k_def)
  have "node_exists s (last q)"
  proof (cases "length q = 1")
    case True
    then obtain u where "q = [u]" by (cases q) auto
    then show ?thesis using ex h by simp
  next
    case False
    then show ?thesis using walk_last_exists[OF w] qne lk by simp
  qed
  then obtain n where n: "n \<in> set (kg_nodes s)" "last q = n_id n" by (auto simp: node_exists_def)
  have "k = 0 \<or> int k \<le> md" using b lk by auto
  from ng_rows_complete[OF n(1) w d h n(2) ex lk this]
  have "ng_of n (int k) q \<in> set (node_graph s nid md)" by (auto simp: node_graph_mem)
  then show ?thesis using n(2) lk by (intro bexI[of _ "ng_of n (int k) q"]) auto
qed

lemma gcn_connected_spec:
  assumes ex: "node_exists s nid"
  shows "connected_spec s nid md (get_connected_nodes s nid md)"
proof -
  let ?R = "get_connected_nodes s nid md"
  have sound: "depth r = int k \<and> length (path r) = Suc k \<and> hd (path r) = nid \<and>
      last (path r) = node_id r \<and> distinct (path r) \<and> walk s (path r) \<and>
      (k = 0 \<or> int k \<le> md) \<and> node_exists s (node_id r)"
    if "r \<in> set (((node_graph_step s md) ^^ k) (node_graph_base s nid))" for r k
    using that by (rule ng_rows_sound)
  have c1: "\<exists>r \<in> set ?R. node_id r = nid"
  proof -
    have "\<exists>x \<in> set (node_graph s nid md). node_id x = last [nid] \<and> depth x = int (length [nid]) - 1"
      by (rule simple_walk_row[OF ex]) simp_all
    then have "nid \<in> node_id ` set (node_graph s nid md)" by force
    then show ?thesis unfolding gcn_ids[symmetric] by force
  qed
  have c2: "\<forall>r \<in> set ?R. node_id r = nid \<longrightarrow> depth r = 0"
  proof (intro ballI impI)
    fix r assume r: "r \<in> set ?R" and id: "node_id r = nid"
    from r obtain k where k: "r \<in> set (((node_graph_step s md) ^^ k) (node_graph_base s nid))"
      by (rule gcn_row)
    note f = sound[OF k]
    have "length (path r) = 1"
    proof (cases "path r")
      case Nil
      then show ?thesis using f by simp
    next
      case (Cons a t)
      have "t = []"
      proof (rule ccontr)
        assume "t \<noteq> []"
        then have "last (path r) \<in> set t" using Cons by simp
        moreover have "hd (path r) \<notin> set t" using Cons f by auto
        ultimately show False using f id by simp
      qed
      then show ?thesis using Cons by simp
    qed
    then show "depth r = 0" using f by simp
  qed
  have c34: "distinct (map node_id ?R) \<and> sorted (map node_id ?R)"
    using gcn_sorted[of s nid md] by (simp add: strict_sorted_iff)
  have c5: "\<forall>r \<in> set ?R. 0 \<le> depth r \<and> depth r \<le> max 0 md"
  proof
    fix r assume "r \<in> set ?R"
    then obtain k where "r \<in> set (((node_graph_step s md) ^^ k) (node_graph_base s nid))"
      by (rule gcn_row)
    from sound[OF this] show "0 \<le> depth r \<and> depth r \<le> max 0 md" by auto
  qed
  have c6: "\<forall>r \<in> set ?R. \<exists>p. walk s p \<and> hd p = nid \<and> last p = node_id r \<and>
        int (length p) = depth r + 1"
  proof
    fix r assume "r \<in> set ?R"
    then obtain k where "r \<in> set (((node_graph_step s md) ^^ k) (node_graph_base s nid))"
      by (rule gcn_row)
    from sound[OF this] show "\<exists>p. walk s p \<and> hd p = nid \<and> last p = node_id r \<and>
        int (length p) = depth r + 1" by (intro exI[of _ "path r"]) auto
  qed
  have c7: "\<forall>r \<in> set ?R. \<forall>p. walk s p \<and> hd p = nid \<and> last p = node_id r \<longrightarrow>
        depth r + 1 \<le> int (length p)"
  proof (intro ballI allI impI)
    fix r p assume r: "r \<in> set ?R" and p: "walk s p \<and> hd p = nid \<and> last p = node_id r"
    from p walk_shorten[of s p] obtain q where q: "walk s q" "distinct q" "hd q = nid"
      "last q = node_id r" "length q \<le> length p" by auto
    have qne: "q \<noteq> []" using q(1) by (rule walk_nonempty)
    show "depth r + 1 \<le> int (length p)"
    proof (cases "length q = 1 \<or> int (length q) \<le> md + 1")
      case True
      from simple_walk_row[OF ex q(1,2,3) True] obtain x where
        x: "x \<in> set (node_graph s nid md)" "node_id x = last q" "depth x = int (length q) - 1"
        by blast
      have "depth r \<le> depth x" using gcn_min[OF r x(1)] x(2) q(4) by simp
      then show ?thesis using x(3) q(5) by simp
    next
      case False
      then have "max 0 md + 1 < int (length q)" using qne by (cases q) auto
      then show ?thesis using c5 r q(5) by fastforce
    qed
  qed
  have c8: "\<forall>p. walk s p \<and> hd p = nid \<and> int (length p) \<le> md + 1 \<longrightarrow>
        last p \<in> node_id ` set ?R"
  proof (intro allI impI)
    fix p assume p: "walk s p \<and> hd p = nid \<and> int (length p) \<le> md + 1"
    from p walk_shorten[of s p] obtain q where q: "walk s q" "distinct q" "hd q = nid"
      "last q = last p" "length q \<le> length p" by auto
    have "length q = 1 \<or> int (length q) \<le> md + 1" using p q(5) by simp
    from simple_walk_row[OF ex q(1,2,3) this] q(4)
    have "last p \<in> node_id ` set (node_graph s nid md)" by force
    then show "last p \<in> node_id ` set ?R" by (simp add: gcn_ids)
  qed
  show ?thesis
    unfolding connected_spec_def using c1 c2 c34 c5 c6 c7 c8 by blast
qed


text \<open>
  C1 (amended). For every graph and every existing start node, the result of
  \<open>get_connected_nodes\<close> satisfies \<open>connected_spec\<close>; on the graph A\<rightarrow>B, B\<rightarrow>C, A\<rightarrow>C
  the call with bound 1 returns A at depth 0, B at depth 1 and C at depth 1 (C is a
  neighbour of A through the edge A\<rightarrow>C).
\<close>

theorem get_connected_nodes_min_depth:
  assumes ex: "node_exists s nid"
  shows "connected_spec s nid md (get_connected_nodes s nid md) \<and>
     map ng_key (get_connected_nodes abc_db 1 1) = [(1, 0), (2, 1), (3, 1)]"
proof
  show "connected_spec s nid md (get_connected_nodes s nid md)"
    using ex by (rule gcn_connected_spec)
  show "map ng_key (get_connected_nodes abc_db 1 1) = [(1, 0), (2, 1), (3, 1)]"
    by (simp add: ev ng_key_def)
qed

theorem get_connected_nodes_min_depth_witness:
  "node_exists abc_db 1 \<and> connected_spec abc_db 1 1 (get_connected_nodes abc_db 1 1)"
  using get_connected_nodes_min_depth[of abc_db 1 1]
  by (simp add: node_exists_def abc_db_def mk_node_def)

text \<open>
  The scenario as the specification words it (only A and B are returned) does not hold,
  and with a negative bound the start node is returned at depth 0, above the bound.
\<close>

theorem connected_scenario_counterexample:
  "map ng_key (get_connected_nodes abc_db 1 1) \<noteq> [(1, 0), (2, 1)] \<and>
   (3, 1) \<in> set (map ng_key (get_connected_nodes abc_db 1 1)) \<and>
   map ng_key (get_connected_nodes abc_db 1 (-1)) = [(1, 0)]"
  by (simp add: ev ng_key_def)





lemmas ev_paths = find_shortest_path_def paths_def paths_loop.simps paths_base_def
  paths_step_def abc_db_def mk_node_def mk_edge_def

text \<open>
  C2. The path returned is the lightest of the paths the query explores, but the query
  explores too few: it extends a path only while the path has fewer than \<open>max_depth\<close>
  nodes. On the graph A\<rightarrow>B (1), B\<rightarrow>C (1), A\<rightarrow>C (5) with bound 2 the path A, B, C of two
  edges and weight 2 lies within the bound, yet the call from A to C returns the direct
  edge of weight 5; with bound 1 the call from A to B returns nothing although the edge
  A\<rightarrow>B exists. Only with bound 3 is the path of weight 2 returned.
\<close>

theorem find_shortest_path_misses_lighter_path:
  "kg_edges abc_db = [mk_edge 11 1 2 ''x'' 1, mk_edge 12 2 3 ''y'' 1, mk_edge 13 1 3 ''z'' 5] \<and>
   weight (mk_edge 11 1 2 ''x'' 1) + weight (mk_edge 12 2 3 ''y'' 1) = 2 \<and>
   weight (mk_edge 13 1 3 ''z'' 5) = 5 \<and>
   find_shortest_path abc_db 1 3 2 = Some ([1, 3], 5) \<and>
   find_shortest_path abc_db 1 2 1 = None \<and>
   find_shortest_path abc_db 1 3 3 = Some ([1, 2, 3], 2)"
  by (simp add: ev_paths)

text \<open>
  C3. The bound of \<open>find_shortest_path\<close> counts the nodes of a path, not its edges: a
  path is extended only while it has fewer than \<open>max_depth\<close> nodes. With bound 1 the
  edge A\<rightarrow>B is not found, and with bound 2 the two-edge path A, B, C is not explored, so
  the direct edge of weight 5 is returned instead of the path of weight 2.
\<close>

theorem find_shortest_path_bound_counts_nodes:
  "kg_edges abc_db ! 0 = mk_edge 11 1 2 ''x'' 1 \<and>
   source_id (mk_edge 11 1 2 ''x'' 1) = 1 \<and> target_id (mk_edge 11 1 2 ''x'' 1) = 2 \<and>
   find_shortest_path abc_db 1 2 1 = None \<and>
   find_shortest_path abc_db 1 2 2 = Some ([1, 2], 1) \<and>
   find_shortest_path abc_db 1 3 2 = Some ([1, 3], 5) \<and>
   find_shortest_path abc_db 1 3 3 = Some ([1, 2, 3], 2)"
  by (simp add: ev_paths)

lemma inner_product_Nil [simp]: "inner_product [] b = 0" "inner_product a [] = 0"
  by (simp_all add: inner_product_def)

lemma inner_product_Cons [simp]:
  "inner_product (x # xs) (y # ys) = x * y + inner_product xs ys"
  by (simp add: inner_product_def)

lemma inner_product_zero [simp]:
  "inner_product (replicate n 0) b = 0" "inner_product a (replicate n 0) = 0"
proof -
  show "inner_product (replicate n 0) b = 0"
    by (induction n arbitrary: b) (simp, case_tac b, simp_all)
  show "inner_product a (replicate n 0) = 0"
    by (induction n arbitrary: a) (simp, case_tac a, simp_all)
qed

lemma sqrt_squares: "sqrt 100 = 10" "sqrt 25 = 5" "sqrt 16 = 4"
proof -
  have "sqrt ((10::real)\<^sup>2) = 10" "sqrt ((5::real)\<^sup>2) = 5" "sqrt ((4::real)\<^sup>2) = 4"
    by (simp_all only: real_sqrt_abs abs_numeral)
  then show "sqrt 100 = 10" "sqrt 25 = 5" "sqrt 16 = 4" by simp_all
qed

lemma scenario_distances:
  "cosine_distance (pad [3, 4]) (pad [1]) = Inr (Finite (2 / 5))"
  "cosine_distance (pad [9, 3, 3, 1]) (pad [1]) = Inr (Finite (1 / 10))"
  "cosine_distance (pad [3, 2, 1, 1, 1]) (pad [1]) = Inr (Finite (1 / 4))"
  "cosine_distance (pad [1]) (pad [1]) = Inr (Finite 0)"
  "cosine_distance (pad []) (pad [1]) = Inr NaN"
  "cosine_distance (pad [3, 4]) [1] = Inl DataException"
  by (simp_all add: cosine_distance_def pad_def sqrt_squares)

lemma semantic_scan_cases:
  assumes "semantic_scan ops rid emb rows q thr cnt = Inr out"
  shows "0 \<le> cnt \<and> (\<exists>filt. out = take (nat cnt) (sort_key (\<lambda>(r, d). float8_key d) filt) \<and>
     (\<forall>x \<in> set filt. fst x \<in> set rows \<and> scanned ops q (rid (fst x)) \<and>
        (\<exists>e. emb (fst x) = Some e \<and> cosine_op ops e q = Inr (snd x)) \<and>
        float8_gt (similarity ops (snd x)) thr))"
proof (cases "cnt \<le> 0")
  case True
  then have "cnt = 0" "out = []" using assms by (auto simp: semantic_scan_def split: if_splits)
  then show ?thesis by (intro conjI exI[of _ "[]"]) simp_all
next
  case False
  define cands where "cands = [(r, cosine_op ops e q). r \<leftarrow> rows, scanned ops q (rid r),
      e \<leftarrow> not_null (emb r)]"
  define filt where "filt = [(r, d). (r, Inr d) \<leftarrow> cands, float8_gt (similarity ops d) thr]"
  have out: "out = take (nat cnt) (sort_key (\<lambda>(r, d). float8_key d) filt)"
    using assms False unfolding semantic_scan_def Let_def cands_def[symmetric] filt_def[symmetric]
    by (auto split: list.splits)
  have c: "r \<in> set rows \<and> scanned ops q (rid r) \<and> (\<exists>e. emb r = Some e \<and> v = cosine_op ops e q)"
    if "(r, v) \<in> set cands" for r v
    using that unfolding cands_def by (cases "emb r") (auto split: if_splits)
  have f: "(fst x, Inr (snd x)) \<in> set cands \<and> float8_gt (similarity ops (snd x)) thr"
    if "x \<in> set filt" for x
    using that unfolding filt_def by (auto split: prod.splits sum.splits if_splits)
  have "\<forall>x \<in> set filt. fst x \<in> set rows \<and> scanned ops q (rid (fst x)) \<and>
        (\<exists>e. emb (fst x) = Some e \<and> cosine_op ops e q = Inr (snd x)) \<and>
        float8_gt (similarity ops (snd x)) thr"
  proof
    fix x assume "x \<in> set filt"
    from f[OF this] c[of "fst x" "Inr (snd x)"] show "fst x \<in> set rows \<and>
        scanned ops q (rid (fst x)) \<and>
        (\<exists>e. emb (fst x) = Some e \<and> cosine_op ops e q = Inr (snd x)) \<and>
        float8_gt (similarity ops (snd x)) thr" by auto
  qed
  then show ?thesis using out False by (intro conjI exI[of _ filt]) simp_all
qed

lemma semantic_scan_sound:
  assumes "semantic_scan ops rid emb rows q thr cnt = Inr out"
  shows "\<forall>x \<in> set out. fst x \<in> set rows \<and> scanned ops q (rid (fst x)) \<and>
        (\<exists>e. emb (fst x) = Some e \<and> cosine_op ops e q = Inr (snd x)) \<and>
        float8_gt (similarity ops (snd x)) thr"
    and "sorted (map float8_key (map snd out))"
    and "int (length out) \<le> cnt"
proof -
  from semantic_scan_cases[OF assms] obtain filt where
    c: "0 \<le> cnt" "out = take (nat cnt) (sort_key (\<lambda>(r, d). float8_key d) filt)"
    and f: "\<forall>x \<in> set filt. fst x \<in> set rows \<and> scanned ops q (rid (fst x)) \<and>
        (\<exists>e. emb (fst x) = Some e \<and> cosine_op ops e q = Inr (snd x)) \<and>
        float8_gt (similarity ops (snd x)) thr" by blast
  have "set out \<subseteq> set filt" unfolding c(2) by (auto dest: in_set_takeD)
  then show "\<forall>x \<in> set out. fst x \<in> set rows \<and> scanned ops q (rid (fst x)) \<and>
        (\<exists>e. emb (fst x) = Some e \<and> cosine_op ops e q = Inr (snd x)) \<and>
        float8_gt (similarity ops (snd x)) thr" using f by blast
  have k: "(\<lambda>(r, d). float8_key d) = (\<lambda>x :: 'a \<times> float8. float8_key (snd x))"
    by (simp add: fun_eq_iff)
  have "sorted (map (\<lambda>x. float8_key (snd x)) (sort_key (\<lambda>x. float8_key (snd x)) filt))"
    by (rule sorted_sort_key)
  then have "sorted (take (nat cnt) (map (\<lambda>x. float8_key (snd x))
      (sort_key (\<lambda>x. float8_key (snd x)) filt)))"
    by (rule sorted_wrt_take)
  then show "sorted (map float8_key (map snd out))"
    unfolding c(2) k by (simp add: take_map comp_def)
  show "int (length out) \<le> cnt" using c by simp
qed

lemma semantic_scan_returns:
  assumes "0 \<le> cnt"
    and "\<forall>r \<in> set rows. \<forall>e. emb r = Some e \<longrightarrow> (\<exists>d. cosine_op ops e q = Inr d)"
  shows "\<exists>out. semantic_scan ops rid emb rows q thr cnt = Inr out"
proof -
  define cands where "cands = [(r, cosine_op ops e q). r \<leftarrow> rows, scanned ops q (rid r),
      e \<leftarrow> not_null (emb r)]"
  have "\<exists>d. v = Inr d" if "(r, v) \<in> set cands" for r v
    using that assms(2) unfolding cands_def by (cases "emb r") (auto split: if_splits)
  define errs where "errs = [err. (r, Inl err) \<leftarrow> cands]"
  have "\<exists>d. v = Inr d" if "(r, v) \<in> set cs" "set cs \<subseteq> set cands" for r v cs
    using that \<open>\<And>v r. (r, v) \<in> set cands \<Longrightarrow> \<exists>d. v = Inr d\<close> by blast
  have nil: "[err. (r, Inl err) \<leftarrow> cs] = []" if "set cs \<subseteq> set cands" for cs
    using that
  proof (induction cs)
    case Nil
    show ?case by simp
  next
    case (Cons c cs)
    obtain r v where c: "c = (r, v)" by (cases c)
    then have "(r, v) \<in> set cands" using Cons.prems by simp
    then obtain d where "v = Inr d"
      using \<open>\<And>v r. (r, v) \<in> set cands \<Longrightarrow> \<exists>d. v = Inr d\<close> by blast
    then show ?case using Cons c by simp
  qed
  have e: "errs = []" unfolding errs_def by (rule nil) (rule subset_refl)
  show ?thesis
    unfolding semantic_scan_def Let_def cands_def[symmetric] errs_def[symmetric]
    using assms(1) by (simp add: e)
qed

lemma descending_similarity:
  assumes "\<forall>a b. a \<le> b \<longrightarrow> float8mi ops 1 b \<le> float8mi ops 1 a"
    and "sorted (map float8_key ds)"
  shows "descending (map (similarity ops) ds)"
proof -
  have step: "desc_key (similarity ops x) \<le> desc_key (similarity ops y)"
    if "float8_key x \<le> float8_key y" for x y
    using that assms(1) by (cases x; cases y) auto
  have "sorted_wrt (\<lambda>x y. float8_key x \<le> float8_key y) ds"
    using assms(2) by (simp add: sorted_map)
  then have "sorted_wrt (\<lambda>x y. desc_key (similarity ops x) \<le> desc_key (similarity ops y)) ds"
    by (rule sorted_wrt_mono_rel[rotated]) (rule step)
  then show ?thesis by (simp add: descending_def sorted_map comp_def)
qed

lemma search_chunks_semantic_sound:
  assumes "search_chunks_semantic ops s q thr cnt = Inr rows"
  shows "chunk_search_spec ops s q thr cnt rows"
proof -
  from assms obtain out where
    out: "semantic_scan ops c_id c_embedding (document_chunks s) q thr cnt = Inr out"
    and rows: "rows = map (\<lambda>(c, d). \<lparr>cm_id = c_id c, cm_document_id = c_document_id c,
               cm_content = c_content c, cm_metadata = c_metadata c,
               cm_similarity = similarity ops d\<rparr>) out"
    unfolding search_chunks_semantic_def
    by (cases "semantic_scan ops c_id c_embedding (document_chunks s) q thr cnt") auto
  note snd = semantic_scan_sound[OF out]
  have sims: "map cm_similarity rows = map (similarity ops) (map snd out)"
    unfolding rows by (simp add: case_prod_beta comp_def)
  have 1: "\<forall>m \<in> set rows. \<exists>c \<in> set (document_chunks s). \<exists>e d. scanned ops q (c_id c) \<and>
        c_embedding c = Some e \<and> cosine_op ops e q = Inr d \<and>
        cm_id m = c_id c \<and> cm_content m = c_content c \<and>
        cm_similarity m = similarity ops d \<and> float8_gt (cm_similarity m) thr"
  proof
    fix m assume "m \<in> set rows"
    then obtain x where x: "x \<in> set out" "m = \<lparr>cm_id = c_id (fst x),
        cm_document_id = c_document_id (fst x), cm_content = c_content (fst x),
        cm_metadata = c_metadata (fst x), cm_similarity = similarity ops (snd x)\<rparr>"
      unfolding rows by (auto simp: case_prod_beta)
    from snd(1) x(1) obtain e where "fst x \<in> set (document_chunks s)"
      "scanned ops q (c_id (fst x))" "c_embedding (fst x) = Some e"
      "cosine_op ops e q = Inr (snd x)" "float8_gt (similarity ops (snd x)) thr" by blast
    then show "\<exists>c \<in> set (document_chunks s). \<exists>e d. scanned ops q (c_id c) \<and>
        c_embedding c = Some e \<and> cosine_op ops e q = Inr d \<and>
        cm_id m = c_id c \<and> cm_content m = c_content c \<and>
        cm_similarity m = similarity ops d \<and> float8_gt (cm_similarity m) thr"
      using x(2) by (intro bexI[of _ "fst x"] exI[of _ e] exI[of _ "snd x"]) simp_all
  qed
  have 2: "\<exists>ds. map cm_similarity rows = map (similarity ops) ds \<and> sorted (map float8_key ds)"
    using sims snd(2) by blast
  have 3: "(\<forall>a b. a \<le> b \<longrightarrow> float8mi ops 1 b \<le> float8mi ops 1 a) \<longrightarrow>
        descending (map cm_similarity rows)"
    unfolding sims using descending_similarity[OF _ snd(2)] by blast
  have 4: "int (length rows) \<le> cnt" using snd(3) rows by simp
  show ?thesis unfolding chunk_search_spec_def using 1 2 3 4 by (intro conjI)
qed

lemma search_nodes_semantic_sound:
  assumes "search_nodes_semantic ops s q thr cnt = Inr rows"
  shows "node_search_spec ops s q thr cnt rows"
proof -
  from assms obtain out where
    out: "semantic_scan ops n_id n_embedding (kg_nodes s) q thr cnt = Inr out"
    and rows: "rows = map (\<lambda>(n, d). \<lparr>m_id = n_id n, m_label = n_label n, m_type = n_type n,
               m_properties = n_properties n, m_similarity = similarity ops d\<rparr>) out"
    unfolding search_nodes_semantic_def
    by (cases "semantic_scan ops n_id n_embedding (kg_nodes s) q thr cnt") auto
  note snd = semantic_scan_sound[OF out]
  have sims: "map m_similarity rows = map (similarity ops) (map snd out)"
    unfolding rows by (simp add: case_prod_beta comp_def)
  have 1: "\<forall>m \<in> set rows. \<exists>n \<in> set (kg_nodes s). \<exists>e d. scanned ops q (n_id n) \<and>
        n_embedding n = Some e \<and> cosine_op ops e q = Inr d \<and>
        m_id m = n_id n \<and> m_label m = n_label n \<and>
        m_similarity m = similarity ops d \<and> float8_gt (m_similarity m) thr"
  proof
    fix m assume "m \<in> set rows"
    then obtain x where x: "x \<in> set out" "m = \<lparr>m_id = n_id (fst x), m_label = n_label (fst x),
        m_type = n_type (fst x), m_properties = n_properties (fst x),
        m_similarity = similarity ops (snd x)\<rparr>"
      unfolding rows by (auto simp: case_prod_beta)
    from snd(1) x(1) obtain e where "fst x \<in> set (kg_nodes s)"
      "scanned ops q (n_id (fst x))" "n_embedding (fst x) = Some e"
      "cosine_op ops e q = Inr (snd x)" "float8_gt (similarity ops (snd x)) thr" by blast
    then show "\<exists>n \<in> set (kg_nodes s). \<exists>e d. scanned ops q (n_id n) \<and>
        n_embedding n = Some e \<and> cosine_op ops e q = Inr d \<and>
        m_id m = n_id n \<and> m_label m = n_label n \<and>
        m_similarity m = similarity ops d \<and> float8_gt (m_similarity m) thr"
      using x(2) by (intro bexI[of _ "fst x"] exI[of _ e] exI[of _ "snd x"]) simp_all
  qed
  have 2: "\<exists>ds. map m_similarity rows = map (similarity ops) ds \<and> sorted (map float8_key ds)"
    using sims snd(2) by blast
  have 3: "(\<forall>a b. a \<le> b \<longrightarrow> float8mi ops 1 b \<le> float8mi ops 1 a) \<longrightarrow>
        descending (map m_similarity rows)"
    unfolding sims using descending_similarity[OF _ snd(2)] by blast
  have 4: "int (length rows) \<le> cnt" using snd(3) rows by simp
  show ?thesis unfolding node_search_spec_def using 1 2 3 4 by (intro conjI)
qed

lemmas ev_search = search_chunks_semantic_def search_nodes_semantic_def semantic_scan_def
  exact_ops_def empty_probe_ops_def three_chunks_def twin_chunks_def zero_chunk_def
  mk_chunk_def mk_node_def embedded_node_def scenario_distances

lemma scenario_chunks:
  "map_sum id (map (\<lambda>m. (cm_id m, cm_similarity m)))
     (search_chunks_semantic exact_ops three_chunks (pad [1]) 0.7 10) =
   Inr [(2, Finite 0.9), (3, Finite 0.75)]"
  by (simp add: ev_search)

lemma scenario_nodes:
  "map_sum id (map (\<lambda>m. (m_id m, m_similarity m)))
     (search_nodes_semantic exact_ops three_chunks (pad [1]) 0.7 10) =
   Inr [(2, Finite 0.9), (3, Finite 0.75)]"
  by (simp add: ev_search)

text \<open>
  C4 (amended). Whenever a similarity search over chunks or over nodes returns rows, every
  row comes from an entity with a stored embedding, carries one minus its distance to the
  query as similarity, and that similarity is strictly above the threshold or is NaN (the
  similarity to or of a zero vector); the rows are in ascending order of distance, that
  is, in descending order of similarity with rows of equal similarity allowed and NaN
  last; and there are at most \<open>match_count\<close> of them. Entities that the access path does
  not visit are not returned. With a count that is not negative and a query on which the
  operator raises no error the search returns rows; a negative count is an error. With
  threshold 0.7 over candidates of similarity 0.6, 0.9 and 0.75 (and one without
  embedding), all of them visited, exactly the second and the third are returned, in that
  order.
\<close>

theorem similarity_search_descending:
  "(search_chunks_semantic ops s q thr cnt = Inr rows \<longrightarrow>
      chunk_search_spec ops s q thr cnt rows) \<and>
   (search_nodes_semantic ops s q thr cnt = Inr nrows \<longrightarrow>
      node_search_spec ops s q thr cnt nrows) \<and>
   (0 \<le> cnt \<and> (\<forall>c \<in> set (document_chunks s). \<forall>e. c_embedding c = Some e \<longrightarrow>
        (\<exists>d. cosine_op ops e q = Inr d)) \<longrightarrow>
      (\<exists>rows. search_chunks_semantic ops s q thr cnt = Inr rows)) \<and>
   (0 \<le> cnt \<and> (\<forall>n \<in> set (kg_nodes s). \<forall>e. n_embedding n = Some e \<longrightarrow>
        (\<exists>d. cosine_op ops e q = Inr d)) \<longrightarrow>
      (\<exists>rows. search_nodes_semantic ops s q thr cnt = Inr rows)) \<and>
   (cnt < 0 \<longrightarrow> search_chunks_semantic ops s q thr cnt = Inl InvalidRowCountInLimit \<and>
      search_nodes_semantic ops s q thr cnt = Inl InvalidRowCountInLimit) \<and>
   map_sum id (map (\<lambda>m. (cm_id m, cm_similarity m)))
     (search_chunks_semantic exact_ops three_chunks (pad [1]) 0.7 10) =
     Inr [(2, Finite 0.9), (3, Finite 0.75)] \<and>
   map_sum id (map (\<lambda>m. (m_id m, m_similarity m)))
     (search_nodes_semantic exact_ops three_chunks (pad [1]) 0.7 10) =
     Inr [(2, Finite 0.9), (3, Finite 0.75)]"
proof (intro conjI impI)
  assume "search_chunks_semantic ops s q thr cnt = Inr rows"
  then show "chunk_search_spec ops s q thr cnt rows" by (rule search_chunks_semantic_sound)
next
  assume "search_nodes_semantic ops s q thr cnt = Inr nrows"
  then show "node_search_spec ops s q thr cnt nrows" by (rule search_nodes_semantic_sound)
next
  assume "0 \<le> cnt \<and> (\<forall>c \<in> set (document_chunks s). \<forall>e. c_embedding c = Some e \<longrightarrow>
        (\<exists>d. cosine_op ops e q = Inr d))"
  then obtain out where
    "semantic_scan ops c_id c_embedding (document_chunks s) q thr cnt = Inr out"
    using semantic_scan_returns[of cnt "document_chunks s" c_embedding ops q c_id thr] by blast
  then show "\<exists>rows. search_chunks_semantic ops s q thr cnt = Inr rows"
    by (simp add: search_chunks_semantic_def)
next
  assume "0 \<le> cnt \<and> (\<forall>n \<in> set (kg_nodes s). \<forall>e. n_embedding n = Some e \<longrightarrow>
        (\<exists>d. cosine_op ops e q = Inr d))"
  then obtain out where
    "semantic_scan ops n_id n_embedding (kg_nodes s) q thr cnt = Inr out"
    using semantic_scan_returns[of cnt "kg_nodes s" n_embedding ops q n_id thr] by blast
  then show "\<exists>rows. search_nodes_semantic ops s q thr cnt = Inr rows"
    by (simp add: search_nodes_semantic_def)
next
  assume "cnt < 0"
  then show "search_chunks_semantic ops s q thr cnt = Inl InvalidRowCountInLimit"
    by (simp add: search_chunks_semantic_def semantic_scan_def)
next
  assume "cnt < 0"
  then show "search_nodes_semantic ops s q thr cnt = Inl InvalidRowCountInLimit"
    by (simp add: search_nodes_semantic_def semantic_scan_def)
next
  show "map_sum id (map (\<lambda>m. (cm_id m, cm_similarity m)))
     (search_chunks_semantic exact_ops three_chunks (pad [1]) 0.7 10) =
     Inr [(2, Finite 0.9), (3, Finite 0.75)]" by (rule scenario_chunks)
next
  show "map_sum id (map (\<lambda>m. (m_id m, m_similarity m)))
     (search_nodes_semantic exact_ops three_chunks (pad [1]) 0.7 10) =
     Inr [(2, Finite 0.9), (3, Finite 0.75)]" by (rule scenario_nodes)
qed

theorem similarity_search_descending_witness:
  "(0::int) \<le> 10 \<and>
   float8mi exact_ops 1 (1 / 4) \<le> float8mi exact_ops 1 (1 / 10) \<and>
   (\<exists>rows. search_chunks_semantic exact_ops three_chunks (pad [1]) 0.7 10 = Inr rows \<and>
      rows \<noteq> [] \<and> chunk_search_spec exact_ops three_chunks (pad [1]) 0.7 10 rows \<and>
      descending (map cm_similarity rows)) \<and>
   (\<exists>rows. search_nodes_semantic exact_ops three_chunks (pad [1]) 0.7 10 = Inr rows \<and>
      rows \<noteq> [] \<and> node_search_spec exact_ops three_chunks (pad [1]) 0.7 10 rows \<and>
      descending (map m_similarity rows))"
proof -
  note t = similarity_search_descending[of exact_ops three_chunks "pad [1]" "0.7" 10]
  have mono: "\<forall>a b. (a::real) \<le> b \<longrightarrow> float8mi exact_ops 1 b \<le> float8mi exact_ops 1 a"
    by (simp add: exact_ops_def)
  obtain rows where r: "search_chunks_semantic exact_ops three_chunks (pad [1]) 0.7 10 = Inr rows"
    using scenario_chunks
    by (cases "search_chunks_semantic exact_ops three_chunks (pad [1]) 0.7 10") auto
  obtain nrows where n: "search_nodes_semantic exact_ops three_chunks (pad [1]) 0.7 10 = Inr nrows"
    using scenario_nodes
    by (cases "search_nodes_semantic exact_ops three_chunks (pad [1]) 0.7 10") auto
  have "rows \<noteq> []" using scenario_chunks r by auto
  moreover have "nrows \<noteq> []" using scenario_nodes n by auto
  moreover have c: "chunk_search_spec exact_ops three_chunks (pad [1]) 0.7 10 rows"
    using t[of rows nrows] r by blast
  moreover have d: "node_search_spec exact_ops three_chunks (pad [1]) 0.7 10 nrows"
    using t[of rows nrows] n by blast
  moreover have "descending (map cm_similarity rows)"
    using c mono unfolding chunk_search_spec_def by blast
  moreover have "descending (map m_similarity nrows)"
    using d mono unfolding node_search_spec_def by blast
  moreover have "float8mi exact_ops 1 (1 / 4) \<le> float8mi exact_ops 1 (1 / 10)"
    by (simp add: exact_ops_def)
  ultimately show ?thesis using r n by simp
qed

text \<open>
  Two chunks with the same embedding are both returned, with the same similarity: the
  order is not strict. A negative count is an error of the query. A chunk whose embedding
  is the zero vector is returned with similarity NaN, at any threshold. An index scan
  that probes no list returns nothing where candidates above the threshold exist. A
  query of another dimension is an error.
\<close>

theorem similarity_search_strict_counterexample:
  "map_sum id (map (\<lambda>m. (cm_id m, cm_similarity m)))
     (search_chunks_semantic exact_ops twin_chunks (pad [1]) 0.7 10) =
     Inr [(1, Finite 1), (2, Finite 1)] \<and>
   search_chunks_semantic exact_ops twin_chunks (pad [1]) 0.7 (- 1) =
     Inl InvalidRowCountInLimit \<and>
   map_sum id (map (\<lambda>m. (cm_id m, cm_similarity m)))
     (search_chunks_semantic exact_ops zero_chunk (pad [1]) 0.7 10) =
     Inr [(2, Finite 0.9), (1, NaN)] \<and>
   search_chunks_semantic empty_probe_ops three_chunks (pad [1]) 0.7 10 = Inr [] \<and>
   search_chunks_semantic exact_ops three_chunks [1] 0.7 10 = Inl DataException"
  by (simp add: ev_search cosine_distance_def pad_def)

lemma varchar_length:
  assumes "varchar n v = Inr r"
  shows "length r \<le> n"
proof (cases "length v \<le> n")
  case True
  then show ?thesis using assms by (simp add: varchar_def)
next
  case False
  then have "r = take n v" using assms by (simp add: varchar_def split: if_splits)
  then show ?thesis by simp
qed

lemma varchar_fits: "length v \<le> n \<Longrightarrow> varchar n v = Inr v"
  by (simp add: varchar_def)

lemma insert_kg_edges_Inr:
  assumes "insert_kg_edges s e = Inr (row, s')"
  shows "\<exists>r. varchar 255 (relationship e) = Inr r \<and> row = e\<lparr>relationship := r\<rparr> \<and>
     s' = s\<lparr>kg_edges := kg_edges s @ [row]\<rparr> \<and>
     e_id row \<notin> e_id ` set (kg_edges s) \<and> edge_triple row \<notin> edge_triple ` set (kg_edges s) \<and>
     node_exists s (source_id row) \<and> node_exists s (target_id row)"
  using assms unfolding insert_kg_edges_def
  by (auto simp: Let_def split: sum.splits if_splits)

lemma insert_kg_edges_invariant:
  assumes inv: "db_invariant s" and ins: "insert_kg_edges s e = Inr (row, s')"
  shows "db_invariant s'"
proof -
  from insert_kg_edges_Inr[OF ins] obtain r where r: "varchar 255 (relationship e) = Inr r"
    "row = e\<lparr>relationship := r\<rparr>" "s' = s\<lparr>kg_edges := kg_edges s @ [row]\<rparr>"
    "e_id row \<notin> e_id ` set (kg_edges s)" "edge_triple row \<notin> edge_triple ` set (kg_edges s)"
    "node_exists s (source_id row)" "node_exists s (target_id row)" by blast
  have len: "length (relationship row) \<le> 255" using varchar_length[OF r(1)] r(2) by simp
  have ne: "node_exists s' = node_exists s" using r(3) by (simp add: node_exists_def fun_eq_iff)
  show ?thesis
    using inv r(4-7) len unfolding db_invariant_def edges_unique_def ne
    by (auto simp: r(3))
qed

lemma insert_kg_nodes_Inr:
  assumes "insert_kg_nodes s n = Inr (row, s')"
  shows "n_id row = n_id n \<and> s' = s\<lparr>kg_nodes := kg_nodes s @ [row]\<rparr> \<and> \<not> node_exists s (n_id n)"
  using assms unfolding insert_kg_nodes_def
  by (auto simp: Let_def split: sum.splits if_splits option.splits)

lemma insert_kg_nodes_invariant:
  assumes inv: "db_invariant s" and ins: "insert_kg_nodes s n = Inr (row, s')"
  shows "db_invariant s'"
proof -
  from insert_kg_nodes_Inr[OF ins] have r: "n_id row = n_id n"
    "s' = s\<lparr>kg_nodes := kg_nodes s @ [row]\<rparr>" "\<not> node_exists s (n_id n)" by auto
  have mono: "node_exists s v \<Longrightarrow> node_exists s' v" for v
    using r(2) by (auto simp: node_exists_def)
  have "n_id row \<notin> n_id ` set (kg_nodes s)" using r(1,3) by (auto simp: node_exists_def)
  then show ?thesis
    using inv mono unfolding db_invariant_def edges_unique_def by (auto simp: r(2))
qed

lemma delete_kg_nodes_invariant:
  assumes inv: "db_invariant s"
  shows "db_invariant (delete_kg_nodes s i)"
proof -
  have keep: "node_exists (delete_kg_nodes s i) v" if "node_exists s v" "v \<noteq> i" for v
    using that by (auto simp: node_exists_def delete_kg_nodes_def)
  show ?thesis
    using inv keep unfolding db_invariant_def edges_unique_def
    by (auto simp: delete_kg_nodes_def distinct_map_filter)
qed

lemma settle_store: "store (snd (settle r)) = store (snd r)"
  by (auto simp: settle_def split: prod.splits sum.splits)

lemma generateEmbedding_store: "store (snd (generateEmbedding ev q w)) = store w"
  by (auto simp: generateEmbedding_def split: option.splits)

lemma generateEmbedding_storeD: "generateEmbedding ev q w = (v, w') \<Longrightarrow> store w' = store w"
  using generateEmbedding_store[of ev q w] by simp

lemma searchDocuments_store: "store (snd (searchDocuments ev a w)) = store w"
  by (auto simp: searchDocuments_def Let_def split: prod.splits sum.splits
      dest: generateEmbedding_storeD)

lemma createSafeExecute_store:
  "store (snd (createSafeExecute fn name a w)) = store (snd (fn a w))"
  by (auto simp: createSafeExecute_def split: prod.splits sum.splits)

lemma searchDocuments_tool_store: "store (snd (searchDocuments_tool ev a w)) = store w"
  by (cases a) (simp_all add: settle_store createSafeExecute_store searchDocuments_store)

lemma traverseGraph_tool_store: "store (snd (traverseGraph_tool a w)) = store w"
  by (cases a) (auto simp: settle_store traverseGraph_def split: list.splits)

lemma updateGraph_tool_store: "store (snd (updateGraph_tool a w)) = store w"
  by (cases a) (auto simp: settle_store updateGraph_def Let_def split: update_op.splits)

lemma searchNodesSemanticaly_store: "store (snd (searchNodesSemanticaly ev a w)) = store w"
  by (auto simp: searchNodesSemanticaly_def Let_def split: prod.splits sum.splits
      dest: generateEmbedding_storeD)

lemma searchNodesSemanticaly_tool_store:
  "store (snd (searchNodesSemanticaly_tool ev a w)) = store w"
  by (cases a) (simp_all add: settle_store searchNodesSemanticaly_store)

lemma createNode_invariant:
  "db_invariant (store w) \<Longrightarrow> db_invariant (store (snd (createNode ev a w)))"
  by (auto simp: createNode_def Let_def split: prod.splits sum.splits
      dest: insert_kg_nodes_invariant)

lemma createEdge_invariant:
  "db_invariant (store w) \<Longrightarrow> db_invariant (store (snd (createEdge ev a w)))"
  by (auto simp: createEdge_def Let_def split: prod.splits sum.splits list.splits
      dest: insert_kg_edges_invariant)

lemma tools_preserve: "(name, t) \<in> set (tools ev m) \<Longrightarrow> preserves t"
proof -
  have "preserves (searchDocuments_tool ev)" "preserves traverseGraph_tool"
    "preserves updateGraph_tool" "preserves (searchNodesSemanticaly_tool ev)"
    by (simp_all add: preserves_def searchDocuments_tool_store traverseGraph_tool_store
        updateGraph_tool_store searchNodesSemanticaly_tool_store)
  moreover have "preserves (createNode_tool ev)"
    unfolding preserves_def
  proof (intro allI impI)
    fix a and w :: world assume "db_invariant (store w)"
    then show "db_invariant (store (snd (createNode_tool ev a w)))"
      by (cases a) (simp_all add: settle_store createNode_invariant)
  qed
  moreover have "preserves (createEdge_tool ev)"
    unfolding preserves_def
  proof (intro allI impI)
    fix a and w :: world assume "db_invariant (store w)"
    then show "db_invariant (store (snd (createEdge_tool ev a w)))"
      by (cases a) (simp_all add: settle_store createEdge_invariant)
  qed
  ultimately show "(name, t) \<in> set (tools ev m) \<Longrightarrow> preserves t"
    by (auto simp: tools_def split: if_splits)
qed

lemma invoke_invariant:
  assumes "db_invariant (store w)"
  shows "db_invariant (store (snd (invoke ev m c w)))"
proof (cases "map_of (tools ev m) (toolName c)")
  case None
  then show ?thesis using assms by (simp add: invoke_def)
next
  case (Some t)
  then have "preserves t" using tools_preserve map_of_SomeD by fast
  then have "db_invariant (store (snd (t (args c) w)))" using assms by (simp add: preserves_def)
  then show ?thesis using Some by (simp add: invoke_def case_prod_beta)
qed

lemma run_calls_invariant:
  "db_invariant (store w) \<Longrightarrow> db_invariant (store (snd (run_calls ev m cs w)))"
proof (induction cs arbitrary: w)
  case Nil
  then show ?case by simp
next
  case (Cons c cs)
  have "db_invariant (store (snd (invoke ev m c w)))" using Cons.prems by (rule invoke_invariant)
  from Cons.IH[OF this] show ?case by (simp add: case_prod_beta)
qed

lemma POST_cases:
  "POST ev body steps w = (Response500, w) \<or>
   (\<exists>msg. POST ev body steps w = (Response400 msg, w)) \<or>
   (\<exists>b m. body = Some b \<and> b \<noteq> JNull \<and> is_array (get_field b ''messages'') \<and>
      parse_mode (get_field b ''mode'') = Some m \<and>
      POST ev body steps w =
        (DataStreamResponse (fst (streamText ev m steps w)), snd (streamText ev m steps w)))"
proof (cases body)
  case None
  then show ?thesis by (simp add: POST_def)
next
  case (Some b)
  show ?thesis
  proof (cases "b = JNull")
    case True
    then show ?thesis using Some by (simp add: POST_def)
  next
    case False
    then have eq: "POST ev body steps w =
       (if \<not> is_array (get_field b ''messages'') then (Response400 ''Invalid messages format'', w)
        else case parse_mode (get_field b ''mode'') of
            None \<Rightarrow> (Response400 ''Invalid mode. Must be vector, graph, or hybrid'', w)
          | Some m \<Rightarrow> (let (es, w') = streamText ev m steps w in (DataStreamResponse es, w')))"
      using Some by (cases b) (simp_all add: POST_def Let_def)
    show ?thesis
    proof (cases "is_array (get_field b ''messages'')")
      case False
      then show ?thesis using eq by simp
    next
      case True
      show ?thesis
      proof (cases "parse_mode (get_field b ''mode'')")
        case None
        then show ?thesis using eq True by simp
      next
        case (Some m)
        then show ?thesis using eq True \<open>body = Some b\<close> \<open>b \<noteq> JNull\<close>
          by (simp add: case_prod_beta)
      qed
    qed
  qed
qed

lemma streamText_invariant:
  "db_invariant (store w) \<Longrightarrow> db_invariant (store (snd (streamText ev m steps w)))"
  unfolding streamText_def by (rule run_calls_invariant)

lemma POST_invariant:
  assumes "db_invariant (store w)"
  shows "db_invariant (store (snd (POST ev body steps w)))"
  using POST_cases[of ev body steps w] streamText_invariant[OF assms] assms
  by (elim disjE exE conjE) simp_all

lemma insert_kg_edges_duplicate:
  assumes "db_invariant s" "edge_triple e \<in> edge_triple ` set (kg_edges s)"
  shows "insert_kg_edges s e = Inl UniqueViolation"
proof -
  from assms obtain x where x: "x \<in> set (kg_edges s)" "edge_triple x = edge_triple e" by auto
  then have "length (relationship e) \<le> 255"
    using assms(1) by (auto simp: db_invariant_def edge_triple_def)
  then have "varchar 255 (relationship e) = Inr (relationship e)" by (rule varchar_fits)
  then show ?thesis using x unfolding insert_kg_edges_def by (auto simp: Let_def)
qed

lemma insert_kg_edges_missing_endpoint:
  assumes "\<not> node_exists s (source_id e) \<or> \<not> node_exists s (target_id e)"
  shows "\<exists>err. insert_kg_edges s e = Inl err"
  using assms unfolding insert_kg_edges_def
  by (auto simp: Let_def split: sum.splits)

lemma insert_kg_edges_foreign_key:
  assumes "\<not> node_exists s (source_id e) \<or> \<not> node_exists s (target_id e)"
    and "db_invariant s" "length (relationship e) \<le> 255" "e_id e \<notin> e_id ` set (kg_edges s)"
  shows "insert_kg_edges s e = Inl ForeignKeyViolation"
proof -
  have "edge_triple x \<noteq> edge_triple e" if "x \<in> set (kg_edges s)" for x
    using that assms(1,2) by (auto simp: db_invariant_def edge_triple_def)
  moreover have "e_id x \<noteq> e_id e" if "x \<in> set (kg_edges s)" for x
    using that assms(4) by (metis imageI)
  ultimately show ?thesis
    using assms(1) varchar_fits[OF assms(3)] unfolding insert_kg_edges_def
    by (auto simp: Let_def)
qed

lemma createEdge_duplicate:
  assumes inv: "db_invariant (store w)"
    and src: "[n \<leftarrow> kg_nodes (store w). n_label n = slab] = src # ss"
    and tgt: "[n \<leftarrow> kg_nodes (store w). n_label n = tlab] = tgt # ts"
    and dup: "(n_id src, n_id tgt, r) \<in> edge_triple ` set (kg_edges (store w))"
  shows "fst (createEdge ev (slab, tlab, r) w) = Inl (StoreError UniqueViolation) \<and>
     store (snd (createEdge ev (slab, tlab, r) w)) = store w"
proof -
  let ?e = "\<lparr>e_id = uuid_generate_v4 ev (uuid_calls w), source_id = n_id src,
      target_id = n_id tgt, relationship = r, e_properties = JObj [], weight = 1\<rparr>"
  have "edge_triple ?e \<in> edge_triple ` set (kg_edges (store w))"
    using dup by (simp add: edge_triple_def)
  from insert_kg_edges_duplicate[OF inv this] show ?thesis
    by (simp add: createEdge_def src tgt)
qed

lemma createEdge_missing:
  assumes "[n \<leftarrow> kg_nodes (store w). n_label n = slab] = [] \<or>
     [n \<leftarrow> kg_nodes (store w). n_label n = tlab] = []"
  shows "createEdge ev (slab, tlab, r) w = (Inr (ErrorMessage ''One or both nodes not found''), w)"
  using assms by (auto simp: createEdge_def split: list.splits)

text \<open>
  C5. The schema's constraints, the uniqueness of (source, target, relationship) among
  them, hold after every operation on a store on which they hold: a request to the chat
  route in any mode with any tool calls, a single tool call, an insert into either table
  and the deletion of a node. An insert of an existing triple fails with a unique
  violation; an insert with a missing endpoint fails. The tool \<open>createEdge\<close> on an
  existing triple throws the unique violation and leaves the store as it was, and on a
  label without a node it returns its error value and changes nothing.
\<close>

theorem edge_triple_unique_preserved:
  assumes "db_invariant (store w)"
  shows "edges_unique (store w) \<and>
     db_invariant (store (snd (POST ev body steps w))) \<and>
     edges_unique (store (snd (POST ev body steps w))) \<and>
     db_invariant (store (snd (invoke ev m c w))) \<and>
     db_invariant (delete_kg_nodes (store w) i) \<and>
     (\<forall>row s'. insert_kg_edges (store w) e = Inr (row, s') \<longrightarrow> db_invariant s') \<and>
     (\<forall>row s'. insert_kg_nodes (store w) n = Inr (row, s') \<longrightarrow> db_invariant s') \<and>
     (edge_triple e \<in> edge_triple ` set (kg_edges (store w)) \<longrightarrow>
        insert_kg_edges (store w) e = Inl UniqueViolation) \<and>
     (\<not> node_exists (store w) (source_id e) \<or> \<not> node_exists (store w) (target_id e) \<longrightarrow>
        (\<exists>err. insert_kg_edges (store w) e = Inl err)) \<and>
     ([x \<leftarrow> kg_nodes (store w). n_label x = slab] = src # ss \<and>
      [x \<leftarrow> kg_nodes (store w). n_label x = tlab] = tgt # ts \<and>
      (n_id src, n_id tgt, r) \<in> edge_triple ` set (kg_edges (store w)) \<longrightarrow>
        fst (createEdge ev (slab, tlab, r) w) = Inl (StoreError UniqueViolation) \<and>
        store (snd (createEdge ev (slab, tlab, r) w)) = store w) \<and>
     ([x \<leftarrow> kg_nodes (store w). n_label x = slab] = [] \<or>
      [x \<leftarrow> kg_nodes (store w). n_label x = tlab] = [] \<longrightarrow>
        createEdge ev (slab, tlab, r) w =
          (Inr (ErrorMessage ''One or both nodes not found''), w))"
proof -
  have a: "edges_unique (store w)" using assms by (simp add: db_invariant_def)
  have b: "db_invariant (store (snd (POST ev body steps w)))" using assms by (rule POST_invariant)
  then have b': "edges_unique (store (snd (POST ev body steps w)))" by (simp add: db_invariant_def)
  have c: "db_invariant (store (snd (invoke ev m c w)))" using assms by (rule invoke_invariant)
  have d: "db_invariant (delete_kg_nodes (store w) i)" using assms by (rule delete_kg_nodes_invariant)
  have e1: "\<forall>row s'. insert_kg_edges (store w) e = Inr (row, s') \<longrightarrow> db_invariant s'"
    using insert_kg_edges_invariant[OF assms] by blast
  have e2: "\<forall>row s'. insert_kg_nodes (store w) n = Inr (row, s') \<longrightarrow> db_invariant s'"
    using insert_kg_nodes_invariant[OF assms] by blast
  have f: "edge_triple e \<in> edge_triple ` set (kg_edges (store w)) \<longrightarrow>
        insert_kg_edges (store w) e = Inl UniqueViolation"
    using insert_kg_edges_duplicate[OF assms] by blast
  have g: "\<not> node_exists (store w) (source_id e) \<or> \<not> node_exists (store w) (target_id e) \<longrightarrow>
        (\<exists>err. insert_kg_edges (store w) e = Inl err)"
    using insert_kg_edges_missing_endpoint by blast
  have h: "[x \<leftarrow> kg_nodes (store w). n_label x = slab] = src # ss \<and>
      [x \<leftarrow> kg_nodes (store w). n_label x = tlab] = tgt # ts \<and>
      (n_id src, n_id tgt, r) \<in> edge_triple ` set (kg_edges (store w)) \<longrightarrow>
        fst (createEdge ev (slab, tlab, r) w) = Inl (StoreError UniqueViolation) \<and>
        store (snd (createEdge ev (slab, tlab, r) w)) = store w"
    using createEdge_duplicate[OF assms] by blast
  have k: "[x \<leftarrow> kg_nodes (store w). n_label x = slab] = [] \<or>
      [x \<leftarrow> kg_nodes (store w). n_label x = tlab] = [] \<longrightarrow>
        createEdge ev (slab, tlab, r) w =
          (Inr (ErrorMessage ''One or both nodes not found''), w)"
    using createEdge_missing by blast
  show ?thesis using a b b' c d e1 e2 f g h k by (intro conjI)
qed

lemma abc_db_invariant: "db_invariant (store w0)"
  by (simp add: db_invariant_def edges_unique_def edge_triple_def node_exists_def w0_def
      abc_db_def mk_node_def mk_edge_def)

theorem edge_triple_unique_preserved_witness:
  "db_invariant (store w0) \<and>
   fst (createEdge ev0 (''A'', ''B'', ''x'') w0) = Inl (StoreError UniqueViolation) \<and>
   store (snd (createEdge ev0 (''A'', ''B'', ''x'') w0)) = store w0 \<and>
   createEdge ev0 (''A'', ''Z'', ''x'') w0 =
     (Inr (ErrorMessage ''One or both nodes not found''), w0) \<and>
   edges_unique (store (snd (createEdge ev0 (''A'', ''B'', ''w'') w0))) \<and>
   length (kg_edges (store (snd (createEdge ev0 (''A'', ''B'', ''w'') w0)))) = 4"
proof -
  note t = edge_triple_unique_preserved[OF abc_db_invariant, where ev = ev0 and r = "''x''"
      and m = Graph and c = "\<lparr>toolName = ''createEdge'', args = CreateEdgeArgs ''A'' ''B'' ''w''\<rparr>"]
  have 1: "fst (createEdge ev0 (''A'', ''B'', ''x'') w0) = Inl (StoreError UniqueViolation) \<and>
     store (snd (createEdge ev0 (''A'', ''B'', ''x'') w0)) = store w0"
    using t[where slab = "''A''" and tlab = "''B''" and src = "mk_node 1 ''A''" and ss = "[]"
        and tgt = "mk_node 2 ''B''" and ts = "[]"]
    by (simp add: w0_def abc_db_def mk_node_def mk_edge_def edge_triple_def)
  have 2: "createEdge ev0 (''A'', ''Z'', ''x'') w0 =
     (Inr (ErrorMessage ''One or both nodes not found''), w0)"
    using t[where slab = "''A''" and tlab = "''Z''"]
    by (simp add: w0_def abc_db_def mk_node_def)
  have inv: "db_invariant (store (snd (invoke ev0 Graph
      \<lparr>toolName = ''createEdge'', args = CreateEdgeArgs ''A'' ''B'' ''w''\<rparr> w0)))"
    using t by blast
  have eq: "snd (invoke ev0 Graph
      \<lparr>toolName = ''createEdge'', args = CreateEdgeArgs ''A'' ''B'' ''w''\<rparr> w0) =
      snd (createEdge ev0 (''A'', ''B'', ''w'') w0)"
    by (simp add: invoke_def tools_def settle_def split: prod.splits sum.splits)
  have 3: "edges_unique (store (snd (createEdge ev0 (''A'', ''B'', ''w'') w0)))"
    using inv unfolding eq by (simp add: db_invariant_def)
  have 4: "length (kg_edges (store (snd (createEdge ev0 (''A'', ''B'', ''w'') w0)))) = 4"
    by (simp add: createEdge_def insert_kg_edges_def varchar_def node_exists_def edge_triple_def
        ev0_def w0_def abc_db_def mk_node_def mk_edge_def Let_def)
  show ?thesis using abc_db_invariant 1 2 3 4 by simp
qed

lemma tools_Vector: "tools ev Vector = [(''searchDocuments'', searchDocuments_tool ev)]"
  by (simp add: tools_def)

lemma invoke_Vector:
  "store (snd (invoke ev Vector c w)) = store w \<and>
   uuid_calls (snd (invoke ev Vector c w)) = uuid_calls w \<and>
   operation (fst (invoke ev Vector c w)) = toolName c \<and>
   (toolName c \<noteq> ''searchDocuments'' \<longrightarrow> outputs (fst (invoke ev Vector c w)) = NoSuchTool)"
proof (cases "toolName c = ''searchDocuments''")
  case True
  have u: "uuid_calls (snd (searchDocuments_tool ev a w)) = uuid_calls w" for a
    by (cases a) (auto simp: settle_def createSafeExecute_def searchDocuments_def
        generateEmbedding_def Let_def split: prod.splits sum.splits option.splits)
  show ?thesis using True u searchDocuments_tool_store[of ev "args c" w]
    by (simp add: invoke_def tools_Vector case_prod_beta)
next
  case False
  then show ?thesis by (simp add: invoke_def tools_Vector)
qed

lemma run_calls_Vector:
  "store (snd (run_calls ev Vector cs w)) = store w \<and>
   uuid_calls (snd (run_calls ev Vector cs w)) = uuid_calls w \<and>
   (\<forall>e \<in> set (fst (run_calls ev Vector cs w)). executed e \<longrightarrow> operation e = ''searchDocuments'')"
proof (induction cs arbitrary: w)
  case Nil
  show ?case by simp
next
  case (Cons c cs)
  note i = invoke_Vector[of ev c w]
  note ih = Cons.IH[of "snd (invoke ev Vector c w)"]
  have "executed (fst (invoke ev Vector c w)) \<longrightarrow>
      operation (fst (invoke ev Vector c w)) = ''searchDocuments''"
    using i by (auto simp: executed_def)
  then show ?case using i ih by (simp add: case_prod_beta)
qed

text \<open>
  C6. In vector mode the tools offered are \<open>searchDocuments\<close> alone. Whatever calls the
  driving agent makes, the store is the same after the request, no identifier is drawn
  for a new row, and every entry of an operation that ran is a \<open>searchDocuments\<close>
  entry: the provenance of the response holds no \<open>createNode\<close> and no \<open>createEdge\<close>.
\<close>

theorem vector_mode_offers_search_only:
  "map fst (tools ev Vector) = [''searchDocuments''] \<and>
   store (snd (streamText ev Vector steps w)) = store w \<and>
   uuid_calls (snd (streamText ev Vector steps w)) = uuid_calls w \<and>
   (\<forall>e \<in> set (provenance (fst (streamText ev Vector steps w))).
      operation e = ''searchDocuments'') \<and>
   (request_field body ''mode'' = Some (JStr ''vector'') \<longrightarrow>
      store (snd (POST ev body steps w)) = store w \<and>
      (\<forall>es. fst (POST ev body steps w) = DataStreamResponse es \<longrightarrow>
         ''createNode'' \<notin> operation ` set (provenance es) \<and>
         ''createEdge'' \<notin> operation ` set (provenance es)))"
proof -
  note r = run_calls_Vector[of ev "concat (take maxSteps steps)" w]
  have p: "\<forall>e \<in> set (provenance (fst (streamText ev Vector steps w))).
      operation e = ''searchDocuments''"
    using r by (simp add: streamText_def provenance_def)
  have post: "store (snd (POST ev body steps w)) = store w \<and>
      (\<forall>es. fst (POST ev body steps w) = DataStreamResponse es \<longrightarrow>
         ''createNode'' \<notin> operation ` set (provenance es) \<and>
         ''createEdge'' \<notin> operation ` set (provenance es))"
    if m: "request_field body ''mode'' = Some (JStr ''vector'')"
  proof -
    from POST_cases[of ev body steps w] show ?thesis
    proof (elim disjE exE conjE)
      assume "POST ev body steps w = (Response500, w)"
      then show ?thesis by simp
    next
      fix msg assume "POST ev body steps w = (Response400 msg, w)"
      then show ?thesis by simp
    next
      fix b md assume h: "body = Some b" "parse_mode (get_field b ''mode'') = Some md"
        "POST ev body steps w =
          (DataStreamResponse (fst (streamText ev md steps w)), snd (streamText ev md steps w))"
      have "md = Vector" using h(1,2) m by (simp add: request_field_def parse_mode_def)
      then show ?thesis using h(3) p r by (auto simp: streamText_def)
    qed
  qed
  show ?thesis using r p post by (simp add: tools_Vector streamText_def)
qed

theorem vector_mode_offers_search_only_witness:
  "request_field (Some (JObj [(''messages'', JArr [JStr ''create a node Mars'']),
      (''mode'', JStr ''vector'')])) ''mode'' = Some (JStr ''vector'') \<and>
   POST ev0 (Some (JObj [(''messages'', JArr [JStr ''create a node Mars'']),
      (''mode'', JStr ''vector'')]))
     [[\<lparr>toolName = ''createNode'', args = CreateNodeArgs ''Mars'' None None\<rparr>]] w0 =
     (DataStreamResponse [\<lparr>operation = ''createNode'', inputs = CreateNodeArgs ''Mars'' None None,
        outputs = NoSuchTool\<rparr>], w0) \<and>
   provenance [\<lparr>operation = ''createNode'', inputs = CreateNodeArgs ''Mars'' None None,
        outputs = NoSuchTool\<rparr>] = [] \<and>
   store (snd (POST ev0 (Some (JObj [(''messages'', JArr [JStr ''create a node Mars'']),
      (''mode'', JStr ''vector'')]))
     [[\<lparr>toolName = ''createNode'', args = CreateNodeArgs ''Mars'' None None\<rparr>]] w0)) = store w0"
  using vector_mode_offers_search_only[of ev0
      "[[\<lparr>toolName = ''createNode'', args = CreateNodeArgs ''Mars'' None None\<rparr>]]" w0
      "Some (JObj [(''messages'', JArr [JStr ''create a node Mars'']), (''mode'', JStr ''vector'')])"]
  by (simp add: request_field_def POST_def is_array_def parse_mode_def streamText_def maxSteps_def
      invoke_def tools_def provenance_def executed_def)

text \<open>
  C7. Only \<open>searchDocuments\<close> is wrapped in \<open>createSafeExecute\<close>. A store error in any
  other tool is thrown out of its \<open>execute\<close>: \<open>createEdge\<close> on the existing edge A\<rightarrow>B
  (x), a focused \<open>updateGraph\<close> refresh and a node search with a negative limit throw,
  where \<open>searchDocuments\<close> with the same negative limit returns an error value that names
  the tool (with \<open>Unknown error\<close> for the message, the store's error being no instance
  of \<open>Error\<close>).
\<close>

theorem unwrapped_tools_throw:
  "outputs (fst (invoke ev0 Graph
      \<lparr>toolName = ''createEdge'', args = CreateEdgeArgs ''A'' ''B'' ''x''\<rparr> w0)) =
     Threw (StoreError UniqueViolation) \<and>
   outputs (fst (invoke ev0 Graph
      \<lparr>toolName = ''updateGraph'', args = UpdateGraphArgs Refresh (Some ''n1'')\<rparr> w0)) =
     Threw (StoreError UndefinedFunction) \<and>
   outputs (fst (invoke ev0 Hybrid
      \<lparr>toolName = ''searchNodesSemanticaly'', args = SearchVectorArgs ''mars'' None (Some (- 1))\<rparr> w0)) =
     Threw (StoreError InvalidRowCountInLimit) \<and>
   outputs (fst (invoke ev0 Hybrid
      \<lparr>toolName = ''searchDocuments'', args = SearchVectorArgs ''mars'' None (Some (- 1))\<rparr> w0)) =
     Returned (SafeExecuteError ''Failed to execute searchDocuments: Unknown error'' None)"
proof -
  have 1: "outputs (fst (invoke ev0 Graph
      \<lparr>toolName = ''createEdge'', args = CreateEdgeArgs ''A'' ''B'' ''x''\<rparr> w0)) =
     Threw (StoreError UniqueViolation)"
    by (simp add: invoke_def tools_def settle_def createEdge_def insert_kg_edges_def varchar_def
        edge_triple_def ev0_def w0_def abc_db_def mk_node_def mk_edge_def Let_def)
  have 2: "outputs (fst (invoke ev0 Graph
      \<lparr>toolName = ''updateGraph'', args = UpdateGraphArgs Refresh (Some ''n1'')\<rparr> w0)) =
     Threw (StoreError UndefinedFunction)"
    by (simp add: invoke_def tools_def settle_def updateGraph_def)
  have g: "generateEmbedding ev0 ''mars'' w0 =
      (map (\<lambda>i. math_random ev0 (random_calls w0 + i)) [0..<1536],
       w0\<lparr>random_calls := random_calls w0 + 1536\<rparr>)"
    by (simp add: generateEmbedding_def ev0_def)
  have 3: "outputs (fst (invoke ev0 Hybrid
      \<lparr>toolName = ''searchNodesSemanticaly'', args = SearchVectorArgs ''mars'' None (Some (- 1))\<rparr> w0)) =
     Threw (StoreError InvalidRowCountInLimit)"
    by (simp add: invoke_def tools_def settle_def searchNodesSemanticaly_def g
        search_nodes_semantic_def semantic_scan_def default_to_def del: upt_rec_numeral map_upt_Suc)
  have ne: "NODE_ENV w0 = ''production''" by (simp add: w0_def)
  have 4: "outputs (fst (invoke ev0 Hybrid
      \<lparr>toolName = ''searchDocuments'', args = SearchVectorArgs ''mars'' None (Some (- 1))\<rparr> w0)) =
     Returned (SafeExecuteError ''Failed to execute searchDocuments: Unknown error'' None)"
    by (simp add: invoke_def tools_def settle_def createSafeExecute_def searchDocuments_def g ne
        search_chunks_semantic_def semantic_scan_def default_to_def js_or_def
        del: upt_rec_numeral map_upt_Suc)
  show ?thesis using 1 2 3 4 by (intro conjI)
qed

text \<open>
  C8 (amended). A request whose body cannot be read, or whose \<open>messages\<close> field is not an
  array, or whose \<open>mode\<close> is not one of the three strings, is answered with an error (status
  400; status 500 when the body is unreadable or \<open>null\<close>) and the state is untouched: no
  tool runs. A body with an array of messages, of any length, and a valid mode goes on to
  \<open>streamText\<close>.
\<close>

theorem POST_rejects_invalid_request:
  "(\<not> is_array (request_field body ''messages'') \<or> parse_mode (request_field body ''mode'') = None
      \<longrightarrow> snd (POST ev body steps w) = w \<and>
          (fst (POST ev body steps w) = Response500 \<or>
           (\<exists>msg. fst (POST ev body steps w) = Response400 msg)) \<and>
          (body \<noteq> None \<and> body \<noteq> Some JNull \<longrightarrow>
             (\<exists>msg. fst (POST ev body steps w) = Response400 msg))) \<and>
   (body \<noteq> Some JNull \<and> is_array (request_field body ''messages'') \<and>
    parse_mode (request_field body ''mode'') = Some m
      \<longrightarrow> POST ev body steps w =
          (DataStreamResponse (fst (streamText ev m steps w)), snd (streamText ev m steps w)))"
proof (intro conjI impI)
  assume bad: "\<not> is_array (request_field body ''messages'') \<or>
      parse_mode (request_field body ''mode'') = None"
  from POST_cases[of ev body steps w]
  have c: "POST ev body steps w = (Response500, w) \<or>
      (\<exists>msg. POST ev body steps w = (Response400 msg, w))"
    using bad by (auto simp: request_field_def)
  then show "snd (POST ev body steps w) = w" by auto
  from c show "fst (POST ev body steps w) = Response500 \<or>
      (\<exists>msg. fst (POST ev body steps w) = Response400 msg)" by auto
  assume "body \<noteq> None \<and> body \<noteq> Some JNull"
  then obtain b where b: "body = Some b" "b \<noteq> JNull" by auto
  then have "POST ev body steps w =
       (if \<not> is_array (get_field b ''messages'') then (Response400 ''Invalid messages format'', w)
        else case parse_mode (get_field b ''mode'') of
            None \<Rightarrow> (Response400 ''Invalid mode. Must be vector, graph, or hybrid'', w)
          | Some m \<Rightarrow> (let (es, w') = streamText ev m steps w in (DataStreamResponse es, w')))"
    by (cases b) (simp_all add: POST_def Let_def)
  then show "\<exists>msg. fst (POST ev body steps w) = Response400 msg"
    using bad b(1) by (auto simp: request_field_def)
next
  assume ok: "body \<noteq> Some JNull \<and> is_array (request_field body ''messages'') \<and>
    parse_mode (request_field body ''mode'') = Some m"
  then obtain b where b: "body = Some b" "b \<noteq> JNull"
    by (cases body) (auto simp: request_field_def is_array_def)
  then have "POST ev body steps w =
       (if \<not> is_array (get_field b ''messages'') then (Response400 ''Invalid messages format'', w)
        else case parse_mode (get_field b ''mode'') of
            None \<Rightarrow> (Response400 ''Invalid mode. Must be vector, graph, or hybrid'', w)
          | Some m \<Rightarrow> (let (es, w') = streamText ev m steps w in (DataStreamResponse es, w')))"
    by (cases b) (simp_all add: POST_def Let_def)
  then show "POST ev body steps w =
          (DataStreamResponse (fst (streamText ev m steps w)), snd (streamText ev m steps w))"
    using ok b(1) by (simp add: request_field_def case_prod_beta)
qed

theorem POST_rejects_invalid_request_witness:
  "parse_mode (request_field (Some (JObj [(''messages'', JArr [JStr ''hello'']),
      (''mode'', JStr ''sql'')])) ''mode'') = None \<and>
   POST ev0 (Some (JObj [(''messages'', JArr [JStr ''hello'']), (''mode'', JStr ''sql'')]))
     [[\<lparr>toolName = ''createNode'', args = CreateNodeArgs ''Mars'' None None\<rparr>]] w0 =
     (Response400 ''Invalid mode. Must be vector, graph, or hybrid'', w0) \<and>
   \<not> is_array (request_field (Some (JObj [(''mode'', JStr ''graph'')])) ''messages'') \<and>
   snd (POST ev0 (Some (JObj [(''mode'', JStr ''graph'')]))
     [[\<lparr>toolName = ''createNode'', args = CreateNodeArgs ''Mars'' None None\<rparr>]] w0) = w0"
  using POST_rejects_invalid_request[of "Some (JObj [(''mode'', JStr ''graph'')])" ev0
      "[[\<lparr>toolName = ''createNode'', args = CreateNodeArgs ''Mars'' None None\<rparr>]]" w0 Graph]
  by (simp add: request_field_def parse_mode_def is_array_def POST_def)

text \<open>
  An empty array of messages passes the validation: the request is handed to
  \<open>streamText\<close> and answered with a data stream, not with an error.
\<close>

theorem POST_empty_messages_counterexample:
  "POST ev0 (Some (JObj [(''messages'', JArr []), (''mode'', JStr ''vector'')])) [] w0 =
     (DataStreamResponse [], w0)"
  by (simp add: POST_def is_array_def parse_mode_def streamText_def)

lemma generateEmbedding_fallback:
  assumes "embeddings_create ev (take 8000 query) = None"
  shows "generateEmbedding ev query w =
     (map (\<lambda>i. math_random ev (random_calls w + i)) [0..<1536],
      w\<lparr>random_calls := random_calls w + 1536\<rparr>)"
  using assms by (simp add: generateEmbedding_def)

lemma generateEmbedding_real:
  assumes "embeddings_create ev (take 8000 query) = Some v"
  shows "generateEmbedding ev query w = (v, w)"
  using assms by (simp add: generateEmbedding_def)

lemma same_vector_same_result:
  assumes f: "embeddings_create ev (take 8000 query) = None"
    and r: "embeddings_create ev' (take 8000 query) = Some (fst (generateEmbedding ev query w))"
    and c: "vector_cosine_ops ev' = vector_cosine_ops ev"
  shows "fst (searchDocuments_tool ev' (SearchVectorArgs query t l) w) =
         fst (searchDocuments_tool ev (SearchVectorArgs query t l) w)"
    and "fst (searchNodesSemanticaly_tool ev' (SearchVectorArgs query t l) w) =
         fst (searchNodesSemanticaly_tool ev (SearchVectorArgs query t l) w)"
proof -
  define v where "v = map (\<lambda>i. math_random ev (random_calls w + i)) [0..<1536]"
  have g: "generateEmbedding ev query w = (v, w\<lparr>random_calls := random_calls w + 1536\<rparr>)"
    unfolding v_def using f by (rule generateEmbedding_fallback)
  have g': "generateEmbedding ev' query w = (v, w)"
    using r unfolding g by (simp add: generateEmbedding_real)
  show "fst (searchDocuments_tool ev' (SearchVectorArgs query t l) w) =
         fst (searchDocuments_tool ev (SearchVectorArgs query t l) w)"
    by (simp add: settle_def createSafeExecute_def searchDocuments_def g g' c
        split: sum.splits)
  show "fst (searchNodesSemanticaly_tool ev' (SearchVectorArgs query t l) w) =
         fst (searchNodesSemanticaly_tool ev (SearchVectorArgs query t l) w)"
    by (simp add: settle_def searchNodesSemanticaly_def g g' c split: sum.splits)
qed

lemma same_vector_same_entry:
  assumes f: "embeddings_create ev (take 8000 query) = None"
    and r: "embeddings_create ev' (take 8000 query) = Some (fst (generateEmbedding ev query w))"
    and c: "vector_cosine_ops ev' = vector_cosine_ops ev"
    and n: "name = ''searchDocuments'' \<or> name = ''searchNodesSemanticaly''"
  shows "fst (invoke ev' m \<lparr>toolName = name, args = SearchVectorArgs query t l\<rparr> w) =
         fst (invoke ev m \<lparr>toolName = name, args = SearchVectorArgs query t l\<rparr> w)"
  using n same_vector_same_result[OF f r c, of t l]
  by (cases m) (auto simp: invoke_def tools_def case_prod_beta)

text \<open>
  C10 (amended). When the embeddings endpoint fails, \<open>generateEmbedding\<close> returns 1536
  values of \<open>Math.random()\<close> as the embedding and nothing else: the store is untouched and
  the entry of a similarity search in the response is the same as in a run in which the
  endpoint had answered with that vector. The result of the fallback carries no mark.
\<close>

theorem fallback_embedding_unflagged:
  assumes "embeddings_create ev (take 8000 query) = None"
  shows "fst (generateEmbedding ev query w) =
       map (\<lambda>i. math_random ev (random_calls w + i)) [0..<1536] \<and>
     length (fst (generateEmbedding ev query w)) = 1536 \<and>
     store (snd (generateEmbedding ev query w)) = store w \<and>
     (embeddings_create ev' (take 8000 query) = Some (fst (generateEmbedding ev query w)) \<and>
      vector_cosine_ops ev' = vector_cosine_ops ev \<longrightarrow>
        fst (invoke ev' m \<lparr>toolName = ''searchDocuments'', args = SearchVectorArgs query t l\<rparr> w) =
        fst (invoke ev m \<lparr>toolName = ''searchDocuments'', args = SearchVectorArgs query t l\<rparr> w) \<and>
        fst (invoke ev' m \<lparr>toolName = ''searchNodesSemanticaly'', args = SearchVectorArgs query t l\<rparr> w) =
        fst (invoke ev m \<lparr>toolName = ''searchNodesSemanticaly'', args = SearchVectorArgs query t l\<rparr> w))"
proof -
  note g = generateEmbedding_fallback[OF assms, of w]
  have 1: "fst (generateEmbedding ev query w) =
       map (\<lambda>i. math_random ev (random_calls w + i)) [0..<1536]" by (simp only: g fst_conv)
  have 2: "length (fst (generateEmbedding ev query w)) = 1536"
    by (simp only: 1 length_map length_upt diff_zero)
  have 3: "store (snd (generateEmbedding ev query w)) = store w" by (rule generateEmbedding_store)
  have 4: "embeddings_create ev' (take 8000 query) = Some (fst (generateEmbedding ev query w)) \<and>
      vector_cosine_ops ev' = vector_cosine_ops ev \<longrightarrow>
        fst (invoke ev' m \<lparr>toolName = ''searchDocuments'', args = SearchVectorArgs query t l\<rparr> w) =
        fst (invoke ev m \<lparr>toolName = ''searchDocuments'', args = SearchVectorArgs query t l\<rparr> w) \<and>
        fst (invoke ev' m \<lparr>toolName = ''searchNodesSemanticaly'', args = SearchVectorArgs query t l\<rparr> w) =
        fst (invoke ev m \<lparr>toolName = ''searchNodesSemanticaly'', args = SearchVectorArgs query t l\<rparr> w)"
    using same_vector_same_entry[OF assms] by blast
  show ?thesis using 1 2 3 4 by (intro conjI)
qed

lemma ev01:
  "embeddings_create ev0 (take 8000 ''mars'') = None"
  "embeddings_create ev1 (take 8000 ''mars'') = Some (fst (generateEmbedding ev0 ''mars'' w1))"
  "vector_cosine_ops ev1 = vector_cosine_ops ev0"
proof -
  show a: "embeddings_create ev0 (take 8000 ''mars'') = None" by (simp add: ev0_def)
  have "random_calls w1 = 0" by (simp add: w1_def)
  then show "embeddings_create ev1 (take 8000 ''mars'') = Some (fst (generateEmbedding ev0 ''mars'' w1))"
    unfolding generateEmbedding_fallback[OF a] by (simp add: ev1_def del: upt_rec_numeral map_upt_Suc)
  show "vector_cosine_ops ev1 = vector_cosine_ops ev0" by (simp add: ev1_def)
qed

theorem fallback_embedding_unflagged_witness:
  "embeddings_create ev0 (take 8000 ''mars'') = None \<and>
   length (fst (generateEmbedding ev0 ''mars'' w1)) = 1536 \<and>
   fst (invoke ev1 Hybrid \<lparr>toolName = ''searchNodesSemanticaly'', args = SearchVectorArgs ''mars'' None None\<rparr> w1) =
   fst (invoke ev0 Hybrid \<lparr>toolName = ''searchNodesSemanticaly'', args = SearchVectorArgs ''mars'' None None\<rparr> w1)"
  using fallback_embedding_unflagged[OF ev01(1), of w1 ev1 Hybrid None None] ev01 by blast

text \<open>
  Two runs of one vector-mode search over the three embedded chunks, the endpoint down in
  the first and answering in the second, give the caller the same entry.
\<close>

theorem fallback_embedding_counterexample:
  "embeddings_create ev0 (take 8000 ''mars'') = None \<and>
   embeddings_create ev1 (take 8000 ''mars'') = Some (fst (generateEmbedding ev0 ''mars'' w1)) \<and>
   fst (streamText ev1 Vector
      [[\<lparr>toolName = ''searchDocuments'', args = SearchVectorArgs ''mars'' None None\<rparr>]] w1) =
   fst (streamText ev0 Vector
      [[\<lparr>toolName = ''searchDocuments'', args = SearchVectorArgs ''mars'' None None\<rparr>]] w1)"
proof -
  have "fst (invoke ev1 Vector \<lparr>toolName = ''searchDocuments'', args = SearchVectorArgs ''mars'' None None\<rparr> w1) =
        fst (invoke ev0 Vector \<lparr>toolName = ''searchDocuments'', args = SearchVectorArgs ''mars'' None None\<rparr> w1)"
    using same_vector_same_entry[OF ev01] by blast
  then show ?thesis using ev01(1,2)
    by (simp add: streamText_def maxSteps_def case_prod_beta)
qed

end
